theory Spec2Isabelle
  imports Complex_Main "HOL-Library.Log_Nat"
begin

section \<open>ncsales: lead scoring over rows of a CSV file\<close>

text \<open>
  The development embeds \<^verbatim>\<open>ncsales/cli.py\<close>: \<^verbatim>\<open>parse_row\<close>,
  \<^verbatim>\<open>get_quartile_label\<close> and \<^verbatim>\<open>process_file\<close>, with the module constants
  they read. \<^verbatim>\<open>get_data\<close> is file input; \<^verbatim>\<open>process_file\<close> is modelled on the
  sequence of rows that \<^verbatim>\<open>get_data\<close> yields, each a list of strings, as the
  repository's tests do when they patch \<^verbatim>\<open>get_data\<close>. Logging is not modelled.

  The interpreter is Python 3 (\<^verbatim>\<open>setup.py\<close> asks for 3.5 or more). Two points depend
  on its version and are fixed here as in current Python: a dict iterates in insertion
  order (guaranteed from 3.7), and digits may be grouped by single underscores (from 3.6).
\<close>

subsection \<open>Python floats\<close>

text \<open>
  A Python float is an IEEE 754 binary64 value. A finite value is kept as the rational
  it denotes; every operation computes the exact rational result and rounds it to the
  nearest double, ties to the even mantissa, overflowing to an infinity. The sign of a
  zero is not kept: no operation of this program can observe it (division by either
  zero raises, comparison and \<^verbatim>\<open>round\<close> ignore it).
\<close>

datatype pyfloat = Fin rat | PInf | NInf | NaN

definition round_half_even :: "rat \<Rightarrow> int" where
  "round_half_even x =
     (let f = \<lfloor>x\<rfloor>; r = x - of_int f
      in if r < 1/2 then f
         else if 1/2 < r then f + 1
         else if even f then f else f + 1)"

definition flog2 :: "rat \<Rightarrow> int" where
  \<comment> \<open>the binary exponent of a positive rational: \<open>2 powi flog2 x \<le> x < 2 powi (flog2 x + 1)\<close>\<close>
  "flog2 x = (if 1 \<le> x then bitlen \<lfloor>x\<rfloor> - 1 else - bitlen (\<lceil>1 / x\<rceil> - 1))"

definition ulp_exp :: "rat \<Rightarrow> int" where
  \<comment> \<open>exponent of the last mantissa bit: 53 bits of precision, subnormals below \<open>2 powi (-1022)\<close>\<close>
  "ulp_exp a = max (flog2 a - 52) (- 1074)"

definition round_mag :: "rat \<Rightarrow> rat" where
  "round_mag a = of_int (round_half_even (a / 2 powi ulp_exp a)) * 2 powi ulp_exp a"

definition rgrid :: "int \<Rightarrow> rat \<Rightarrow> rat" where
  \<comment> \<open>the nearest multiple of \<open>2 powi q\<close>, ties to the even multiple\<close>
  "rgrid q a = of_int (round_half_even (a / 2 powi q)) * 2 powi q"

definition overflow_threshold :: rat where
  "overflow_threshold = of_int (2 ^ 1024)"

definition round_double :: "rat \<Rightarrow> pyfloat" where
  "round_double x =
     (if x = 0 then Fin 0
      else let y = round_mag \<bar>x\<bar>
           in if overflow_threshold \<le> y then (if 0 < x then PInf else NInf)
              else Fin (if 0 < x then y else - y))"

definition is_double :: "pyfloat \<Rightarrow> bool" where
  \<comment> \<open>the values a Python float can hold: a finite one is a fixed point of the rounding\<close>
  "is_double v = (case v of Fin x \<Rightarrow> round_double x = Fin x | _ \<Rightarrow> True)"

datatype exn =
    ValidationError string
  | ValueError
  | OverflowError
  | ZeroDivisionError
  | TypeError
  | KeyError

fun fneg :: "pyfloat \<Rightarrow> pyfloat" where
  "fneg (Fin a) = Fin (- a)"
| "fneg PInf = NInf"
| "fneg NInf = PInf"
| "fneg NaN = NaN"

fun fadd :: "pyfloat \<Rightarrow> pyfloat \<Rightarrow> pyfloat" where
  "fadd NaN _ = NaN"
| "fadd _ NaN = NaN"
| "fadd (Fin a) (Fin b) = round_double (a + b)"
| "fadd PInf NInf = NaN"
| "fadd NInf PInf = NaN"
| "fadd PInf _ = PInf"
| "fadd NInf _ = NInf"
| "fadd (Fin a) b = b"

definition fsub :: "pyfloat \<Rightarrow> pyfloat \<Rightarrow> pyfloat" where
  "fsub a b = fadd a (fneg b)"

definition signed_inf :: "rat \<Rightarrow> pyfloat" where
  \<comment> \<open>an infinity times or divided by a finite value of sign \<open>s\<close>\<close>
  "signed_inf s = (if 0 < s then PInf else if s < 0 then NInf else NaN)"

fun fmul :: "pyfloat \<Rightarrow> pyfloat \<Rightarrow> pyfloat" where
  "fmul NaN _ = NaN"
| "fmul _ NaN = NaN"
| "fmul (Fin a) (Fin b) = round_double (a * b)"
| "fmul (Fin a) PInf = signed_inf a"
| "fmul (Fin a) NInf = signed_inf (- a)"
| "fmul PInf (Fin b) = signed_inf b"
| "fmul NInf (Fin b) = signed_inf (- b)"
| "fmul PInf PInf = PInf"
| "fmul NInf NInf = PInf"
| "fmul PInf NInf = NInf"
| "fmul NInf PInf = NInf"

fun fdiv :: "pyfloat \<Rightarrow> pyfloat \<Rightarrow> exn + pyfloat" where
  \<comment> \<open>Python raises on a zero divisor before anything else\<close>
  "fdiv a (Fin b) =
     (if b = 0 then Inl ZeroDivisionError
      else case a of
             Fin x \<Rightarrow> Inr (round_double (x / b))
           | PInf \<Rightarrow> Inr (signed_inf b)
           | NInf \<Rightarrow> Inr (signed_inf (- b))
           | NaN \<Rightarrow> Inr NaN)"
| "fdiv a NaN = Inr NaN"
| "fdiv (Fin x) _ = Inr (Fin 0)"
| "fdiv _ _ = Inr NaN"

fun flt :: "pyfloat \<Rightarrow> pyfloat \<Rightarrow> bool" where
  "flt NaN _ = False"
| "flt _ NaN = False"
| "flt (Fin a) (Fin b) = (a < b)"
| "flt PInf _ = False"
| "flt _ NInf = False"
| "flt _ _ = True"

definition fgt :: "pyfloat \<Rightarrow> pyfloat \<Rightarrow> bool" where
  "fgt a b = flt b a"

definition feq :: "pyfloat \<Rightarrow> pyfloat \<Rightarrow> bool" where
  "feq a b = (a \<noteq> NaN \<and> a = b)"

definition fle :: "pyfloat \<Rightarrow> pyfloat \<Rightarrow> bool" where
  "fle a b = (flt a b \<or> feq a b)"

fun py_round :: "pyfloat \<Rightarrow> exn + int" where
  \<comment> \<open>\<^verbatim>\<open>round(x)\<close> with one argument: the nearest integer, an exact half to the even one\<close>
  "py_round (Fin x) = Inr (round_half_even x)"
| "py_round NaN = Inl ValueError"
| "py_round _ = Inl OverflowError"

subsection \<open>Strings to numbers: \<^verbatim>\<open>int\<close> and \<^verbatim>\<open>float\<close>\<close>

text \<open>
  A string is a list of characters, read as code points below 256. Both constructors
  strip surrounding whitespace, take an optional sign, and read decimal digits that
  single underscores may group; \<^verbatim>\<open>float\<close> also reads a fraction, an exponent, and
  the words \<^verbatim>\<open>inf\<close>, \<^verbatim>\<open>infinity\<close> and \<^verbatim>\<open>nan\<close> in any case. \<open>None\<close> stands for the
  \<^verbatim>\<open>ValueError\<close> of a string that does not parse.
\<close>

definition is_space :: "char \<Rightarrow> bool" where
  "is_space c = ((of_char c :: nat) \<in> set [9, 10, 11, 12, 13, 28, 29, 30, 31, 32, 133, 160])"

definition strip :: "string \<Rightarrow> string" where
  "strip s = rev (dropWhile is_space (rev (dropWhile is_space s)))"

definition is_digit :: "char \<Rightarrow> bool" where
  "is_digit c = (48 \<le> (of_char c :: nat) \<and> (of_char c :: nat) \<le> 57)"

definition digit_val :: "char \<Rightarrow> nat" where
  "digit_val c = of_char c - 48"

fun digitpart :: "bool \<Rightarrow> string \<Rightarrow> string option" where
  \<comment> \<open>digits with single underscores between them; the flag: the previous character was a digit\<close>
  "digitpart prev [] = (if prev then Some [] else None)"
| "digitpart prev (c # cs) =
     (if is_digit c then map_option (Cons c) (digitpart True cs)
      else if c = CHR ''_'' \<and> prev then digitpart False cs
      else None)"

definition nat_of_digits :: "string \<Rightarrow> nat" where
  "nat_of_digits ds = foldl (\<lambda>n c. 10 * n + digit_val c) 0 ds"

definition split_sign :: "string \<Rightarrow> bool \<times> string" where
  \<comment> \<open>(negative, rest)\<close>
  "split_sign s =
     (case s of
        c # r \<Rightarrow> if c = CHR ''-'' then (True, r) else if c = CHR ''+'' then (False, r) else (False, s)
      | [] \<Rightarrow> (False, s))"

definition py_int :: "string \<Rightarrow> int option" where
  "py_int s =
     (let (neg, body) = split_sign (strip s)
      in case digitpart False body of
           None \<Rightarrow> None
         | Some ds \<Rightarrow> Some (if neg then - int (nat_of_digits ds) else int (nat_of_digits ds)))"

definition to_lower :: "char \<Rightarrow> char" where
  "to_lower c = (if 65 \<le> (of_char c :: nat) \<and> (of_char c :: nat) \<le> 90
                 then char_of ((of_char c :: nat) + 32) else c)"

definition split_at :: "(char \<Rightarrow> bool) \<Rightarrow> string \<Rightarrow> string \<times> string option" where
  \<comment> \<open>the text before the first separator, and the text after it when there is one\<close>
  "split_at sep s =
     (case dropWhile (\<lambda>c. \<not> sep c) s of
        [] \<Rightarrow> (s, None)
      | _ # r \<Rightarrow> (takeWhile (\<lambda>c. \<not> sep c) s, Some r))"

definition decimal_mantissa :: "string \<Rightarrow> (nat \<times> nat) option" where
  \<comment> \<open>\<open>D\<close>, \<open>D.\<close>, \<open>D.D\<close> or \<open>.D\<close>: the digits as a number and how many follow the point\<close>
  "decimal_mantissa s =
     (case split_at (\<lambda>c. c = CHR ''.'') s of
        (ip, None) \<Rightarrow> map_option (\<lambda>ds. (nat_of_digits ds, 0)) (digitpart False ip)
      | (ip, Some fp) \<Rightarrow>
          (if ip = [] then map_option (\<lambda>fs. (nat_of_digits fs, length fs)) (digitpart False fp)
           else case digitpart False ip of
                  None \<Rightarrow> None
                | Some ds \<Rightarrow>
                    (if fp = [] then Some (nat_of_digits ds, 0)
                     else map_option (\<lambda>fs. (nat_of_digits (ds @ fs), length fs))
                            (digitpart False fp))))"

definition decimal_exponent :: "string option \<Rightarrow> int option" where
  "decimal_exponent e =
     (case e of
        None \<Rightarrow> Some 0
      | Some t \<Rightarrow>
          (let (neg, body) = split_sign t
           in map_option (\<lambda>ds. if neg then - int (nat_of_digits ds) else int (nat_of_digits ds))
                (digitpart False body)))"

definition py_float :: "string \<Rightarrow> pyfloat option" where
  "py_float s =
     (let (neg, body) = split_sign (strip s);
          word = map to_lower body
      in if word = ''inf'' \<or> word = ''infinity'' then Some (if neg then NInf else PInf)
         else if word = ''nan'' then Some NaN
         else case split_at (\<lambda>c. c = CHR ''e'' \<or> c = CHR ''E'') body of
                (m, e) \<Rightarrow>
                  (case (decimal_mantissa m, decimal_exponent e) of
                     (Some (digits, nfrac), Some ex) \<Rightarrow>
                        Some (round_double
                               ((if neg then - of_nat digits else of_nat digits)
                                  * 10 powi (ex - int nfrac)))
                   | _ \<Rightarrow> None))"

subsection \<open>Values of a row, and the module constants\<close>

datatype pyval = PyStr string | PyInt int | PyFloat pyfloat

definition EVENT_TYPES :: "string list" where
  "EVENT_TYPES = [''web'', ''email'', ''social'', ''webinar'']"

definition EVENT_FACTORS :: "(string \<times> pyfloat) list" where
  \<comment> \<open>the float literals \<^verbatim>\<open>1.0\<close>, \<^verbatim>\<open>1.2\<close>, \<^verbatim>\<open>1.5\<close>, \<^verbatim>\<open>2.0\<close>\<close>
  "EVENT_FACTORS =
     [(''web'', round_double 1),
      (''email'', round_double (12 / 10)),
      (''social'', round_double (15 / 10)),
      (''webinar'', round_double 2)]"

definition QUARTILE_LABELS :: "(string \<times> int \<times> int) list" where
  "QUARTILE_LABELS =
     [(''platinum'', (75, 100)),
      (''gold'', (50, 74)),
      (''silver'', (25, 49)),
      (''bronze'', (0, 24))]"

subsection \<open>\<^verbatim>\<open>parse_row\<close>\<close>

text \<open>
  \<^verbatim>\<open>int(v)\<close> and \<^verbatim>\<open>float(v)\<close> on the values a row can hold. \<^verbatim>\<open>get_data\<close> yields
  strings only; the other cases are what the constructors do with a number.
\<close>

fun int_of :: "pyval \<Rightarrow> exn + int" where
  "int_of (PyStr s) = (case py_int s of None \<Rightarrow> Inl ValueError | Some n \<Rightarrow> Inr n)"
| "int_of (PyInt n) = Inr n"
| "int_of (PyFloat (Fin x)) = Inr (if 0 \<le> x then \<lfloor>x\<rfloor> else \<lceil>x\<rceil>)"
| "int_of (PyFloat NaN) = Inl ValueError"
| "int_of (PyFloat _) = Inl OverflowError"

fun float_of :: "pyval \<Rightarrow> exn + pyfloat" where
  "float_of (PyStr s) = (case py_float s of None \<Rightarrow> Inl ValueError | Some f \<Rightarrow> Inr f)"
| "float_of (PyInt n) =
     (case round_double (of_int n) of Fin x \<Rightarrow> Inr (Fin x) | _ \<Rightarrow> Inl OverflowError)"
| "float_of (PyFloat f) = Inr f"

text \<open>
  \<^verbatim>\<open>parse_row\<close> assigns into the list it was given and returns that same list. The
  model takes the row and returns the outcome together with the row as the call leaves
  it; on success the outcome is that row.
\<close>

definition parse_row :: "pyval list \<Rightarrow> (exn + pyval list) \<times> pyval list" where
  "parse_row row =
     (if length row < 3 then (Inl (ValidationError ''Malformed row''), row)
      else case int_of (row ! 0) of
             Inl ValueError \<Rightarrow> (Inl (ValidationError ''Bad contact id''), row)
           | Inl e \<Rightarrow> (Inl e, row)
           | Inr n \<Rightarrow>
               (let row = row[0 := PyInt n]
                in if row ! 1 \<notin> set (map PyStr EVENT_TYPES)
                   then (Inl (ValidationError ''Unknown event type''), row)
                   else case float_of (row ! 2) of
                          Inl ValueError \<Rightarrow> (Inl (ValidationError ''Bad score''), row)
                        | Inl e \<Rightarrow> (Inl e, row)
                        | Inr f \<Rightarrow> (let row = row[2 := PyFloat f] in (Inr row, row))))"

subsection \<open>\<^verbatim>\<open>get_quartile_label\<close>\<close>

fun label_loop :: "(string \<times> int \<times> int) list \<Rightarrow> int \<Rightarrow> string" where
  \<comment> \<open>the \<^verbatim>\<open>for\<close> over the bands; its \<^verbatim>\<open>else\<close> branch returns the empty string\<close>
  "label_loop [] score = []"
| "label_loop ((label, scores) # rest) score =
     (if fst scores \<le> score \<and> score \<le> snd scores then label else label_loop rest score)"

definition get_quartile_label :: "int \<Rightarrow> string" where
  "get_quartile_label score = label_loop QUARTILE_LABELS score"

subsection \<open>\<^verbatim>\<open>process_file\<close>\<close>

text \<open>
  \<^verbatim>\<open>contacts\<close> is a \<^verbatim>\<open>defaultdict(float)\<close>: an association list in insertion order,
  a missing key reading as \<^verbatim>\<open>0.0\<close>. \<open>iadd\<close> is \<^verbatim>\<open>contacts[k] += v\<close>.
\<close>

fun iadd :: "int \<Rightarrow> pyfloat \<Rightarrow> (int \<times> pyfloat) list \<Rightarrow> (int \<times> pyfloat) list" where
  "iadd k v [] = [(k, fadd (Fin 0) v)]"
| "iadd k v ((k', t) # rest) =
     (if k = k' then (k', fadd t v) # rest else (k', t) # iadd k v rest)"

definition unpack3 :: "pyval list \<Rightarrow> exn + (pyval \<times> pyval \<times> pyval)" where
  \<comment> \<open>\<^verbatim>\<open>a, b, c = xs\<close>: any other length is a \<^verbatim>\<open>ValueError\<close>\<close>
  "unpack3 xs = (case xs of [a, b, c] \<Rightarrow> Inr (a, b, c) | _ \<Rightarrow> Inl ValueError)"

definition add_event :: "pyval \<times> pyval \<times> pyval \<Rightarrow> (int \<times> pyfloat) list \<Rightarrow> exn + (int \<times> pyfloat) list" where
  \<comment> \<open>\<^verbatim>\<open>contacts[contact_id] += score * factors[event_type]\<close>\<close>
  "add_event ev contacts =
     (case ev of
        (PyInt contact_id, PyStr event_type, PyFloat score) \<Rightarrow>
          (case map_of EVENT_FACTORS event_type of
             None \<Rightarrow> Inl KeyError
           | Some factor \<Rightarrow> Inr (iadd contact_id (fmul score factor) contacts))
      | _ \<Rightarrow> Inl TypeError)"

fun aggregate :: "pyval list list \<Rightarrow> (int \<times> pyfloat) list \<Rightarrow> exn + (int \<times> pyfloat) list" where
  \<comment> \<open>the first loop: only a \<^verbatim>\<open>ValidationError\<close> is caught, and the row skipped\<close>
  "aggregate [] contacts = Inr contacts"
| "aggregate (row # rows) contacts =
     (case fst (parse_row row) of
        Inl (ValidationError msg) \<Rightarrow> aggregate rows contacts
      | Inl e \<Rightarrow> Inl e
      | Inr vals \<Rightarrow>
          (case unpack3 vals of
             Inl e \<Rightarrow> Inl e
           | Inr ev \<Rightarrow>
               (case add_event ev contacts of
                  Inl e \<Rightarrow> Inl e
                | Inr contacts' \<Rightarrow> aggregate rows contacts')))"

fun extremes :: "pyfloat list \<Rightarrow> pyfloat option \<times> pyfloat option \<Rightarrow> pyfloat option \<times> pyfloat option" where
  \<comment> \<open>the second loop, on \<open>(max_score, min_score)\<close>, both \<^verbatim>\<open>None\<close> at the start\<close>
  "extremes [] acc = acc"
| "extremes (score # rest) (max_score, min_score) =
     extremes rest
       (case max_score of None \<Rightarrow> Some score
          | Some m \<Rightarrow> if fgt score m then Some score else Some m,
        case min_score of None \<Rightarrow> Some score
          | Some m \<Rightarrow> if flt score m then Some score else Some m)"

definition opt_eq :: "pyfloat option \<Rightarrow> pyfloat option \<Rightarrow> bool" where
  \<comment> \<open>\<^verbatim>\<open>==\<close> on values that are a float or \<^verbatim>\<open>None\<close>\<close>
  "opt_eq a b =
     (case (a, b) of
        (None, None) \<Rightarrow> True
      | (Some x, Some y) \<Rightarrow> feq x y
      | _ \<Rightarrow> False)"

definition scaled :: "pyfloat \<Rightarrow> pyfloat \<Rightarrow> pyfloat \<Rightarrow> exn + pyfloat" where
  \<comment> \<open>\<^verbatim>\<open>(score - min_score) / (max_score - min_score) * 100\<close>\<close>
  "scaled score mx mn =
     (case fdiv (fsub score mn) (fsub mx mn) of
        Inl e \<Rightarrow> Inl e
      | Inr q \<Rightarrow> Inr (fmul q (Fin 100)))"

definition normalized :: "pyfloat option \<Rightarrow> pyfloat option \<Rightarrow> pyfloat \<Rightarrow> exn + int" where
  "normalized max_score min_score score =
     (if opt_eq max_score min_score then Inr 0
      else case (max_score, min_score) of
             (Some mx, Some mn) \<Rightarrow>
               (case scaled score mx mn of
                  Inl e \<Rightarrow> Inl e
                | Inr r \<Rightarrow> py_round r)
           | _ \<Rightarrow> Inl TypeError)"

text \<open>
  \<^verbatim>\<open>process_file\<close> is a generator: its result is the entries it yields and, when it
  stops by raising, the exception.
\<close>

fun report ::
  "pyfloat option \<Rightarrow> pyfloat option \<Rightarrow> (int \<times> pyfloat) list \<Rightarrow> (int \<times> string \<times> int) list \<times> exn option" where
  "report max_score min_score [] = ([], None)"
| "report max_score min_score ((contact_id, score) # rest) =
     (case normalized max_score min_score score of
        Inl e \<Rightarrow> ([], Some e)
      | Inr normalized_score \<Rightarrow>
          (let (entries, stop) = report max_score min_score rest
           in ((contact_id, get_quartile_label normalized_score, normalized_score) # entries, stop)))"

definition emit_report :: "(int \<times> pyfloat) list \<Rightarrow> (int \<times> string \<times> int) list \<times> exn option" where
  \<comment> \<open>what \<^verbatim>\<open>process_file\<close> does with the finished \<^verbatim>\<open>contacts\<close>\<close>
  "emit_report contacts =
     (let (max_score, min_score) = extremes (map snd contacts) (None, None)
      in report max_score min_score contacts)"

definition process_file :: "string list list \<Rightarrow> (int \<times> string \<times> int) list \<times> exn option" where
  "process_file rows =
     (case aggregate (map (map PyStr) rows) [] of
        Inl e \<Rightarrow> ([], Some e)
      | Inr contacts \<Rightarrow> emit_report contacts)"

subsection \<open>The statements' vocabulary\<close>

text \<open>
  A row is accepted when \<^verbatim>\<open>parse_row\<close> returns; its contact id and weighted score are
  then read off its first three fields.
\<close>

definition accepted :: "string list \<Rightarrow> bool" where
  "accepted r = (case fst (parse_row (map PyStr r)) of Inr _ \<Rightarrow> True | Inl _ \<Rightarrow> False)"

definition contact_of :: "string list \<Rightarrow> int" where
  "contact_of r = the (py_int (r ! 0))"

definition weight :: "string \<Rightarrow> pyfloat" where
  "weight t = the (map_of EVENT_FACTORS t)"

definition weighted :: "string list \<Rightarrow> pyfloat" where
  "weighted r = fmul (the (py_float (r ! 2))) (weight (r ! 1))"

fun first_seen :: "int list \<Rightarrow> int list" where
  "first_seen [] = []"
| "first_seen (x # xs) = x # removeAll x (first_seen xs)"

definition first_seen_ids :: "string list list \<Rightarrow> int list" where
  "first_seen_ids rows = first_seen (map contact_of (filter accepted rows))"

definition round_half_away :: "rat \<Rightarrow> int" where
  \<comment> \<open>rounding to the nearest integer, an exact half away from zero\<close>
  "round_half_away x = (if 0 \<le> x then \<lfloor>x + 1/2\<rfloor> else \<lceil>x - 1/2\<rceil>)"

text \<open>
  \<open>max_score\<close> and \<open>min_score\<close> are the two variables after the second loop;
  \<open>add_row\<close> is what one row does to \<^verbatim>\<open>contacts\<close> when the first loop goes on.
\<close>

definition max_score :: "(int \<times> pyfloat) list \<Rightarrow> pyfloat option" where
  "max_score contacts = fst (extremes (map snd contacts) (None, None))"

definition min_score :: "(int \<times> pyfloat) list \<Rightarrow> pyfloat option" where
  "min_score contacts = snd (extremes (map snd contacts) (None, None))"

definition add_row :: "(int \<times> pyfloat) list \<Rightarrow> string list \<Rightarrow> (int \<times> pyfloat) list" where
  "add_row contacts r = (if accepted r then iadd (contact_of r) (weighted r) contacts else contacts)"

section \<open>Rounding to a double\<close>

lemma rhe_cases:
  "round_half_even x = \<lfloor>x\<rfloor> \<or> round_half_even x = \<lfloor>x\<rfloor> + 1"
  by (simp add: round_half_even_def Let_def)

lemma rhe_of_int [simp]: "round_half_even (of_int n) = n"
  by (simp add: round_half_even_def)

lemma rhe_lower: "\<lfloor>x\<rfloor> \<le> round_half_even x"
  using rhe_cases [of x] by auto

lemma rhe_up_half: "round_half_even x = \<lfloor>x\<rfloor> + 1 \<Longrightarrow> 1/2 \<le> x - of_int \<lfloor>x\<rfloor>"
  by (simp add: round_half_even_def Let_def split: if_splits)

lemma rhe_down_half: "round_half_even x = \<lfloor>x\<rfloor> \<Longrightarrow> x - of_int \<lfloor>x\<rfloor> \<le> 1/2"
  by (simp add: round_half_even_def Let_def split: if_splits)

lemma rhe_mono:
  assumes "x \<le> y"
  shows "round_half_even x \<le> round_half_even y"
proof (cases "\<lfloor>x\<rfloor> = \<lfloor>y\<rfloor>")
  case True
  show ?thesis
  proof (rule ccontr)
    assume "\<not> ?thesis"
    with rhe_cases [of x] rhe_cases [of y] True
    have up: "round_half_even x = \<lfloor>x\<rfloor> + 1" and dn: "round_half_even y = \<lfloor>y\<rfloor>"
      by auto
    from rhe_up_half [OF up] rhe_down_half [OF dn] True assms
    have "x - of_int \<lfloor>x\<rfloor> = 1/2" and "y - of_int \<lfloor>y\<rfloor> = 1/2"
      by auto
    with True have "x = y" by simp
    with up dn True show False by simp
  qed
next
  case False
  with floor_mono [OF assms] have "\<lfloor>x\<rfloor> + 1 \<le> \<lfloor>y\<rfloor>" by simp
  with rhe_cases [of x] rhe_lower [of y] show ?thesis by auto
qed

lemma rhe_le_int: "x \<le> of_int n \<Longrightarrow> round_half_even x \<le> n"
  using rhe_mono [of x "of_int n"] by simp

lemma rhe_ge_int: "of_int n \<le> x \<Longrightarrow> n \<le> round_half_even x"
  using rhe_mono [of "of_int n" x] by simp

lemma powi_neg: "0 \<le> k \<Longrightarrow> (2::rat) powi (- k) = inverse (2 ^ nat k)"
  by (simp add: power_int_minus power_int_nonneg_exp)

lemma flog2_lower:
  assumes "0 < x"
  shows "2 powi flog2 x \<le> x"
proof (cases "1 \<le> x")
  case True
  then have pos: "0 < \<lfloor>x\<rfloor>" by simp
  from bitlen_bounds [OF pos] have "2 ^ nat (bitlen \<lfloor>x\<rfloor> - 1) \<le> \<lfloor>x\<rfloor>" by simp
  then have "(of_int (2 ^ nat (bitlen \<lfloor>x\<rfloor> - 1)) :: rat) \<le> of_int \<lfloor>x\<rfloor>"
    by (simp only: of_int_le_iff)
  also have "\<dots> \<le> x" by simp
  finally have "(2::rat) ^ nat (bitlen \<lfloor>x\<rfloor> - 1) \<le> x" by simp
  moreover have "0 \<le> bitlen \<lfloor>x\<rfloor> - 1"
    using pos bitlen_eq_zero_iff [of "\<lfloor>x\<rfloor>"] bitlen_nonneg [of "\<lfloor>x\<rfloor>"] by linarith
  ultimately show ?thesis using True
    by (simp add: flog2_def power_int_nonneg_exp)
next
  case False
  define c where "c = \<lceil>1 / x\<rceil>"
  define k where "k = bitlen (c - 1)"
  from False assms have "1 < 1 / x" by simp
  then have c2: "2 \<le> c" unfolding c_def by (simp add: less_ceiling_iff)
  then have pos: "0 < c - 1" by simp
  from bitlen_bounds [OF pos] have "c - 1 < 2 ^ nat k" by (simp add: k_def)
  then have "c \<le> 2 ^ nat k" by simp
  then have "(of_int c :: rat) \<le> of_int (2 ^ nat k)" by (simp only: of_int_le_iff)
  then have "(of_int c :: rat) \<le> 2 ^ nat k" by simp
  moreover have "1 / x \<le> of_int c" unfolding c_def by (rule le_of_int_ceiling)
  ultimately have "1 / x \<le> 2 ^ nat k" by (rule order_trans [rotated])
  then have "1 \<le> 2 ^ nat k * x" using assms by (simp add: pos_divide_le_eq)
  then have "inverse (2 ^ nat k) \<le> x"
    by (simp add: field_simps)
  moreover have "0 \<le> k" unfolding k_def by (rule bitlen_nonneg)
  moreover have "flog2 x = - k" using False by (simp add: flog2_def c_def k_def)
  ultimately show ?thesis
    by (simp only: powi_neg)
qed

lemma flog2_upper:
  assumes "0 < x"
  shows "x < 2 powi (flog2 x + 1)"
proof (cases "1 \<le> x")
  case True
  then have pos: "0 < \<lfloor>x\<rfloor>" by simp
  from bitlen_bounds [OF pos] have "\<lfloor>x\<rfloor> + 1 \<le> 2 ^ nat (bitlen \<lfloor>x\<rfloor>)" by simp
  then have "(of_int (\<lfloor>x\<rfloor> + 1) :: rat) \<le> of_int (2 ^ nat (bitlen \<lfloor>x\<rfloor>))"
    by (simp only: of_int_le_iff)
  moreover have "x < of_int (\<lfloor>x\<rfloor> + 1)" by linarith
  ultimately have "x < 2 ^ nat (bitlen \<lfloor>x\<rfloor>)" by simp
  then show ?thesis using True bitlen_nonneg [of "\<lfloor>x\<rfloor>"]
    by (simp add: flog2_def power_int_nonneg_exp)
next
  case False
  define c where "c = \<lceil>1 / x\<rceil>"
  define k where "k = bitlen (c - 1)"
  from False assms have "1 < 1 / x" by simp
  then have c2: "2 \<le> c" unfolding c_def by (simp add: less_ceiling_iff)
  then have pos: "0 < c - 1" by simp
  then have k1: "1 \<le> k" using bitlen_eq_zero_iff [of "c - 1"] bitlen_nonneg [of "c - 1"]
    unfolding k_def by linarith
  from bitlen_bounds [OF pos] have "2 ^ nat (k - 1) \<le> c - 1" by (simp add: k_def)
  then have "(of_int (2 ^ nat (k - 1)) :: rat) \<le> of_int (c - 1)" by (simp only: of_int_le_iff)
  moreover have "of_int (c - 1) < 1 / x" using ceiling_correct [of "1 / x"] by (simp add: c_def)
  ultimately have "2 ^ nat (k - 1) < 1 / x" by simp
  then have "2 ^ nat (k - 1) * x < 1" using assms by (simp add: pos_less_divide_eq)
  then have "x < inverse (2 ^ nat (k - 1))"
    by (simp add: field_simps)
  moreover have "flog2 x + 1 = - (k - 1)" using False by (simp add: flog2_def c_def k_def)
  moreover have "0 \<le> k - 1" using k1 by simp
  ultimately show ?thesis
    by (simp only: powi_neg)
qed

lemma flog2_mono:
  assumes "0 < x" "x \<le> y"
  shows "flog2 x \<le> flog2 y"
proof (rule ccontr)
  assume "\<not> ?thesis"
  then have "flog2 y + 1 \<le> flog2 x" by simp
  then have "(2::rat) powi (flog2 y + 1) \<le> 2 powi flog2 x"
    by (rule power_int_increasing) simp
  also have "\<dots> \<le> x" by (rule flog2_lower [OF assms(1)])
  also have "\<dots> \<le> y" by fact
  also have "\<dots> < 2 powi (flog2 y + 1)" using assms by (intro flog2_upper) simp
  finally show False by simp
qed

lemma round_mag_rgrid: "round_mag a = rgrid (ulp_exp a) a"
  by (simp add: round_mag_def rgrid_def)

lemma two_powi_pos [simp]: "0 < (2::rat) powi k"
  by (simp add: zero_less_power_int)

lemma rgrid_mono: "a \<le> b \<Longrightarrow> rgrid q a \<le> rgrid q b"
  unfolding rgrid_def
  by (intro mult_right_mono) (simp_all add: rhe_mono divide_right_mono)

lemma rgrid_le:
  assumes "a \<le> of_int n * 2 powi q"
  shows "rgrid q a \<le> of_int n * 2 powi q"
proof -
  from assms have "a / 2 powi q \<le> of_int n"
    by (simp add: pos_divide_le_eq)
  then have "round_half_even (a / 2 powi q) \<le> n" by (rule rhe_le_int)
  then have "(of_int (round_half_even (a / 2 powi q)) :: rat) \<le> of_int n"
    by (simp only: of_int_le_iff)
  then show ?thesis unfolding rgrid_def
    by (intro mult_right_mono) simp_all
qed

lemma rgrid_ge:
  assumes "of_int n * 2 powi q \<le> a"
  shows "of_int n * 2 powi q \<le> rgrid q a"
proof -
  from assms have "of_int n \<le> a / 2 powi q"
    by (simp add: pos_le_divide_eq)
  then have "n \<le> round_half_even (a / 2 powi q)" by (rule rhe_ge_int)
  then have "(of_int n :: rat) \<le> of_int (round_half_even (a / 2 powi q))"
    by (simp only: of_int_le_iff)
  then show ?thesis unfolding rgrid_def
    by (intro mult_right_mono) simp_all
qed

lemma powi_on_grid:
  assumes "q \<le> k"
  shows "(2::rat) powi k = of_int (2 ^ nat (k - q)) * 2 powi q"
proof -
  have "(2::rat) powi k = 2 powi ((k - q) + q)" by simp
  also have "\<dots> = 2 powi (k - q) * 2 powi q" by (rule power_int_add) simp
  also have "(2::rat) powi (k - q) = 2 ^ nat (k - q)"
    using assms by (simp add: power_int_nonneg_exp)
  finally show ?thesis by simp
qed

lemma rgrid_le_powi: "q \<le> k \<Longrightarrow> a \<le> 2 powi k \<Longrightarrow> rgrid q a \<le> 2 powi k"
  using rgrid_le [of a "2 ^ nat (k - q)" q] powi_on_grid [of q k] by simp

lemma rgrid_ge_powi: "q \<le> k \<Longrightarrow> 2 powi k \<le> a \<Longrightarrow> 2 powi k \<le> rgrid q a"
  using rgrid_ge [of "2 ^ nat (k - q)" q a] powi_on_grid [of q k] by simp

lemma rgrid_nonneg: "0 \<le> a \<Longrightarrow> 0 \<le> rgrid q a"
  using rgrid_ge [of 0 q a] by simp

lemma ulp_exp_mono: "0 < a \<Longrightarrow> a \<le> b \<Longrightarrow> ulp_exp a \<le> ulp_exp b"
  unfolding ulp_exp_def using flog2_mono [of a b] by simp

lemma round_mag_mono:
  assumes "0 < a" "a \<le> b"
  shows "round_mag a \<le> round_mag b"
proof (cases "ulp_exp a = ulp_exp b")
  case True
  then show ?thesis using rgrid_mono [OF assms(2)] by (simp add: round_mag_rgrid)
next
  case False
  with ulp_exp_mono [OF assms] have lt: "ulp_exp a < ulp_exp b" by simp
  then have qb: "ulp_exp b = flog2 b - 52" and ea: "flog2 a - 52 < flog2 b - 52"
    unfolding ulp_exp_def by auto
  define k where "k = max (flog2 a + 1) (ulp_exp a)"
  have kb: "k \<le> flog2 b" using ea lt qb unfolding k_def by simp
  have "a \<le> 2 powi (flog2 a + 1)" using flog2_upper [OF assms(1)] by simp
  also have "\<dots> \<le> 2 powi k" by (rule power_int_increasing) (simp_all add: k_def)
  finally have "rgrid (ulp_exp a) a \<le> 2 powi k"
    by (intro rgrid_le_powi) (simp_all add: k_def)
  also have "\<dots> \<le> 2 powi flog2 b" using kb by (intro power_int_increasing) simp_all
  also have "\<dots> \<le> rgrid (ulp_exp b) b"
    using assms by (intro rgrid_ge_powi flog2_lower) (simp_all add: qb)
  finally show ?thesis by (simp add: round_mag_rgrid)
qed

lemma round_mag_nonneg: "0 \<le> a \<Longrightarrow> 0 \<le> round_mag a"
  by (simp add: round_mag_rgrid rgrid_nonneg)

lemma round_mag_pos:
  assumes "2 powi (- 1074) \<le> a"
  shows "0 < round_mag a"
proof -
  have pos: "0 < a" using assms two_powi_pos [of "- 1074"] by (rule less_le_trans [rotated])
  have "(2::rat) powi (- 1074) < 2 powi (flog2 a + 1)"
    using assms flog2_upper [OF pos] by (rule le_less_trans)
  then have "- 1074 < flog2 a + 1"
    using power_int_increasing [of "flog2 a + 1" "- 1074" "2::rat"]
    by (cases "- 1074 < flog2 a + 1") simp_all
  then have "ulp_exp a \<le> flog2 a" unfolding ulp_exp_def by simp
  then have "2 powi flog2 a \<le> rgrid (ulp_exp a) a"
    using flog2_lower [OF pos] by (rule rgrid_ge_powi)
  with two_powi_pos [of "flog2 a"] have "0 < rgrid (ulp_exp a) a"
    by (rule less_le_trans)
  then show ?thesis by (simp add: round_mag_rgrid)
qed

lemma round_double_zero [simp]: "round_double 0 = Fin 0"
  by (simp add: round_double_def)

lemma round_double_pos:
  "0 < x \<Longrightarrow>
   round_double x = (if overflow_threshold \<le> round_mag x then PInf else Fin (round_mag x))"
  by (simp add: round_double_def Let_def)

lemma round_double_neg:
  "x < 0 \<Longrightarrow>
   round_double x = (if overflow_threshold \<le> round_mag (- x) then NInf else Fin (- round_mag (- x)))"
  by (simp add: round_double_def Let_def abs_if)

lemma round_double_mono:
  assumes "x \<le> y"
  shows "fle (round_double x) (round_double y)"
proof -
  consider "0 < x" | "x = 0" | "x < 0" "y < 0" | "x < 0" "y = 0" | "x < 0" "0 < y"
    by linarith
  then show ?thesis
  proof cases
    case 1
    then have "0 < y" using assms by simp
    with 1 round_mag_mono [OF 1 assms] show ?thesis
      by (auto simp: round_double_pos fle_def feq_def)
  next
    case 2
    show ?thesis
    proof (cases "y = 0")
      case True
      with 2 show ?thesis by (simp add: fle_def feq_def)
    next
      case False
      with 2 assms have "0 < y" by simp
      with 2 round_mag_nonneg [of y] show ?thesis
        by (auto simp: round_double_pos fle_def feq_def)
    qed
  next
    case 3
    then have "0 < - y" "- y \<le> - x" using assms by simp_all
    from round_mag_mono [OF this] 3 show ?thesis
      by (auto simp: round_double_neg fle_def feq_def)
  next
    case 4
    with round_mag_nonneg [of "- x"] show ?thesis
      by (auto simp: round_double_neg fle_def feq_def)
  next
    case 5
    with round_mag_nonneg [of "- x"] round_mag_nonneg [of y] show ?thesis
      by (auto simp: round_double_neg round_double_pos fle_def feq_def)
  qed
qed

lemma rgrid_fixed: "rgrid q (of_int n * 2 powi q) = of_int n * 2 powi q"
  by (simp add: rgrid_def)

lemma on_finer_grid:
  assumes "q \<le> k"
  shows "of_int m * (2::rat) powi k = of_int (m * 2 ^ nat (k - q)) * 2 powi q"
  using powi_on_grid [OF assms] by simp

lemma rgrid_on_grid:
  assumes "q \<le> k"
  shows "rgrid q (of_int m * 2 powi k) = of_int m * 2 powi k"
  unfolding on_finer_grid [OF assms] by (rule rgrid_fixed)

lemma powi_less_imp_less:
  assumes "(2::rat) powi e < 2 powi j"
  shows "e < j"
proof (rule ccontr)
  assume "\<not> ?thesis"
  then have "j \<le> e" by simp
  then have "(2::rat) powi j \<le> 2 powi e" by (rule power_int_increasing) simp
  with assms show False by simp
qed

lemma round_mag_exact:
  assumes "0 < m" "m < 2 ^ 53" "- 1074 \<le> k"
  shows "round_mag (of_int m * 2 powi k) = of_int m * 2 powi k"
proof -
  define x :: rat where "x = of_int m * 2 powi k"
  have pos: "0 < x" using assms(1) by (simp add: x_def)
  have "(of_int m :: rat) < of_int (2 ^ 53)" using assms(2) by (simp only: of_int_less_iff)
  then have "x < 2 ^ 53 * 2 powi k" unfolding x_def by simp
  also have "\<dots> = 2 powi (53 + k)"
    by (simp add: power_int_add)
  finally have "x < 2 powi (53 + k)" .
  with flog2_lower [OF pos] have "(2::rat) powi flog2 x < 2 powi (53 + k)"
    by (rule le_less_trans)
  then have "flog2 x < 53 + k" by (rule powi_less_imp_less)
  with assms(3) have "ulp_exp x \<le> k" by (simp add: ulp_exp_def)
  then show ?thesis unfolding x_def [symmetric] round_mag_rgrid
    unfolding x_def by (rule rgrid_on_grid)
qed

lemma round_double_exact:
  assumes "\<bar>m\<bar> < 2 ^ 53" "- 1074 \<le> k" "\<bar>of_int m * 2 powi k\<bar> < overflow_threshold"
  shows "round_double (of_int m * 2 powi k) = Fin (of_int m * 2 powi k)"
proof -
  consider "m = 0" | "0 < m" | "m < 0" by linarith
  then show ?thesis
  proof cases
    case 1
    then show ?thesis by simp
  next
    case 2
    then have pos: "0 < of_int m * (2::rat) powi k" by simp
    from 2 assms(1) have "m < 2 ^ 53" by simp
    from round_mag_exact [OF 2 this assms(2)] assms(3) pos show ?thesis
      by (simp add: round_double_pos)
  next
    case 3
    then have neg: "of_int m * (2::rat) powi k < 0" by (simp add: mult_neg_pos)
    from 3 assms(1) have "0 < - m" "- m < 2 ^ 53" by simp_all
    from round_mag_exact [OF this assms(2)] assms(3) neg show ?thesis
      by (simp add: round_double_neg)
  qed
qed

lemma round_double_of_int:
  assumes "\<bar>n\<bar> < 2 ^ 53"
  shows "round_double (of_int n) = Fin (of_int n)"
proof -
  have "\<bar>of_int n :: rat\<bar> = of_int \<bar>n\<bar>" by simp
  also have "\<dots> < of_int (2 ^ 53)" using assms by (simp only: of_int_less_iff)
  also have "\<dots> < overflow_threshold" by (simp add: overflow_threshold_def)
  finally show ?thesis using round_double_exact [of n 0] assms by simp
qed

lemma round_double_dyadic:
  assumes "\<bar>m\<bar> < 2 ^ 53" "j \<le> 1074"
  shows "round_double (of_int m / 2 ^ j) = Fin (of_int m / 2 ^ j)"
proof -
  have eq: "of_int m / (2::rat) ^ j = of_int m * 2 powi (- int j)"
    by (simp add: power_int_minus field_simps)
  have "\<bar>of_int m * (2::rat) powi (- int j)\<bar> \<le> \<bar>of_int m\<bar>"
    by (simp add: abs_mult power_int_minus field_simps mult_le_cancel_left1 pos_divide_le_eq)
  also have "\<dots> = of_int \<bar>m\<bar>" by simp
  also have "\<dots> < of_int (2 ^ 53)" using assms by (simp only: of_int_less_iff)
  also have "\<dots> < overflow_threshold" by (simp add: overflow_threshold_def)
  finally show ?thesis using round_double_exact [of m "- int j"] assms by (simp add: eq)
qed

lemma round_double_one [simp]: "round_double 1 = Fin 1"
  using round_double_of_int [of 1] by simp

lemma round_double_hundred [simp]: "round_double 100 = Fin 100"
  using round_double_of_int [of 100] by simp

lemma double_on_grid:
  assumes "round_double x = Fin x"
  shows "\<exists>n. x = of_int n * 2 powi (- 1074)"
proof -
  have q: "- 1074 \<le> ulp_exp a" for a by (simp add: ulp_exp_def)
  have mag: "\<exists>n. round_mag a = of_int n * 2 powi (- 1074)" for a
    unfolding round_mag_def using on_finer_grid [OF q] by blast
  consider "x = 0" | "0 < x" | "x < 0" by linarith
  then show ?thesis
  proof cases
    case 1
    then have "x = of_int 0 * 2 powi (- 1074)" by simp
    then show ?thesis by blast
  next
    case 2
    with assms have "x = round_mag x" by (simp add: round_double_pos split: if_splits)
    with mag [of x] show ?thesis by simp
  next
    case 3
    with assms have "x = - round_mag (- x)" by (simp add: round_double_neg split: if_splits)
    moreover from mag [of "- x"] obtain n where "round_mag (- x) = of_int n * 2 powi (- 1074)" ..
    ultimately have "x = of_int (- n) * 2 powi (- 1074)" by simp
    then show ?thesis by blast
  qed
qed

lemma sub_nonzero:
  assumes "round_double x = Fin x" "round_double y = Fin y" "x \<noteq> y"
  shows "round_double (x - y) \<noteq> Fin 0"
proof -
  from double_on_grid [OF assms(1)] obtain n where x: "x = of_int n * 2 powi (- 1074)" ..
  from double_on_grid [OF assms(2)] obtain n' where y: "y = of_int n' * 2 powi (- 1074)" ..
  have step: "2 powi (- 1074) \<le> of_int (a - b) * (2::rat) powi (- 1074)" if "b < a" for a b :: int
  proof -
    from that have "1 \<le> a - b" by simp
    then have "(of_int 1 :: rat) \<le> of_int (a - b)" by (simp only: of_int_le_iff)
    then have "1 * 2 powi (- 1074) \<le> of_int (a - b) * (2::rat) powi (- 1074)"
      by (intro mult_right_mono) simp_all
    then show ?thesis by simp
  qed
  have diff: "x - y = of_int (n - n') * 2 powi (- 1074)" "y - x = of_int (n' - n) * 2 powi (- 1074)"
    by (simp_all add: x y algebra_simps)
  from assms(3) x y consider "n' < n" | "n < n'" by fastforce
  then show ?thesis
  proof cases
    case 1
    from step [OF 1] have le: "2 powi (- 1074) \<le> x - y" by (simp only: diff)
    then have "0 < x - y" using two_powi_pos [of "- 1074"] by (rule less_le_trans [rotated])
    with round_mag_pos [OF le] show ?thesis by (simp add: round_double_pos)
  next
    case 2
    from step [OF 2] have le: "2 powi (- 1074) \<le> y - x" by (simp only: diff)
    then have "0 < y - x" using two_powi_pos [of "- 1074"] by (rule less_le_trans [rotated])
    then have "x - y < 0" by simp
    with round_mag_pos [OF le] show ?thesis by (simp add: round_double_neg)
  qed
qed

lemma round_double_between:
  assumes "a \<le> x" "x \<le> b" "round_double a = Fin a" "round_double b = Fin b"
  shows "\<exists>y. round_double x = Fin y \<and> a \<le> y \<and> y \<le> b"
  using round_double_mono [OF assms(1)] round_double_mono [OF assms(2)] assms(3,4)
  by (cases "round_double x") (auto simp: fle_def feq_def)

lemma round_mag_le_bound:
  assumes "0 < x"
  shows "x / 2 powi ulp_exp x \<le> 2 ^ 53"
proof -
  have "flog2 x + 1 \<le> ulp_exp x + 53" by (simp add: ulp_exp_def)
  then have "(2::rat) powi (flog2 x + 1) \<le> 2 powi (ulp_exp x + 53)"
    by (rule power_int_increasing) simp
  with flog2_upper [OF assms] have "x \<le> 2 powi (ulp_exp x + 53)" by simp
  also have "\<dots> = 2 powi ulp_exp x * 2 ^ 53" by (simp add: power_int_add)
  finally show ?thesis by (simp add: pos_divide_le_eq mult.commute)
qed

lemma round_mag_idem:
  assumes "0 < x" "round_mag x < overflow_threshold"
  shows "round_double (round_mag x) = Fin (round_mag x)"
proof -
  define M where "M = round_half_even (x / 2 powi ulp_exp x)"
  have y: "round_mag x = of_int M * 2 powi ulp_exp x" by (simp add: round_mag_def M_def)
  have q: "- 1074 \<le> ulp_exp x" by (simp add: ulp_exp_def)
  have "0 \<le> x / 2 powi ulp_exp x" using assms(1) by simp
  then have "(of_int 0 :: rat) \<le> x / 2 powi ulp_exp x" by simp
  then have M0: "0 \<le> M" unfolding M_def by (rule rhe_ge_int)
  have "x / 2 powi ulp_exp x \<le> of_int (2 ^ 53)" using round_mag_le_bound [OF assms(1)] by simp
  then have M53: "M \<le> 2 ^ 53" unfolding M_def by (rule rhe_le_int)
  have ny: "0 \<le> round_mag x" using assms(1) by (simp add: round_mag_nonneg)
  show ?thesis
  proof (cases "M = 2 ^ 53")
    case True
    have "round_mag x = of_int 1 * 2 powi (ulp_exp x + 53)"
      by (simp add: y True power_int_add mult.commute)
    moreover have "round_double (of_int 1 * 2 powi (ulp_exp x + 53)) = Fin (of_int 1 * 2 powi (ulp_exp x + 53))"
      using q assms(2) ny unfolding \<open>round_mag x = of_int 1 * 2 powi (ulp_exp x + 53)\<close>
      by (intro round_double_exact) simp_all
    ultimately show ?thesis by simp
  next
    case False
    with M53 M0 have "\<bar>M\<bar> < 2 ^ 53" by simp
    moreover have "\<bar>of_int M * 2 powi ulp_exp x\<bar> < overflow_threshold"
      using assms(2) ny by (simp add: y)
    ultimately have "round_double (of_int M * 2 powi ulp_exp x) = Fin (of_int M * 2 powi ulp_exp x)"
      using q by (intro round_double_exact)
    then show ?thesis by (simp add: y)
  qed
qed

lemma round_double_idem:
  assumes "round_double x = Fin y"
  shows "round_double y = Fin y"
proof -
  consider "x = 0" | "0 < x" | "x < 0" by linarith
  then show ?thesis
  proof cases
    case 1
    with assms show ?thesis by simp
  next
    case 2
    with assms have y: "y = round_mag x" and lt: "round_mag x < overflow_threshold"
      by (simp_all add: round_double_pos split: if_splits)
    from round_mag_idem [OF 2 lt] show ?thesis by (simp add: y)
  next
    case 3
    then have pos: "0 < - x" by simp
    from 3 assms have y: "y = - round_mag (- x)" and lt: "round_mag (- x) < overflow_threshold"
      by (simp_all add: round_double_neg split: if_splits)
    from round_mag_idem [OF pos lt] have fx: "round_double (round_mag (- x)) = Fin (round_mag (- x))" .
    have "round_double (- z) = fneg (round_double z)" for z
      by (simp add: round_double_def Let_def)
    from this [of "round_mag (- x)"] fx show ?thesis by (simp add: y)
  qed
qed

lemma is_double_round [simp]: "is_double (round_double x)"
  by (cases "round_double x") (simp_all add: is_double_def round_double_idem)

lemma is_double_special [simp]: "is_double PInf" "is_double NInf" "is_double NaN"
  by (simp_all add: is_double_def)

lemma is_double_fneg: "is_double a \<Longrightarrow> is_double (fneg a)"
proof (cases a)
  case (Fin x)
  assume "is_double a"
  with Fin have "round_double x = Fin x" by (simp add: is_double_def)
  moreover have "round_double (- x) = fneg (round_double x)"
    by (simp add: round_double_def Let_def)
  ultimately show ?thesis using Fin by (simp add: is_double_def)
qed simp_all

lemma is_double_fadd: "is_double a \<Longrightarrow> is_double b \<Longrightarrow> is_double (fadd a b)"
  by (cases a; cases b) simp_all

lemma is_double_fmul: "is_double (fmul a b)"
  by (cases a; cases b) (simp_all add: signed_inf_def)

lemma fadd_zero: "is_double v \<Longrightarrow> fadd (Fin 0) v = v"
  by (cases v) (simp_all add: is_double_def)

section \<open>Float comparison and the second loop\<close>

lemma fle_refl: "a \<noteq> NaN \<Longrightarrow> fle a a"
  by (simp add: fle_def feq_def)

lemma fle_trans: "fle a b \<Longrightarrow> fle b c \<Longrightarrow> fle a c"
  by (cases a; cases b; cases c) (auto simp: fle_def feq_def)

lemma fle_total: "a \<noteq> NaN \<Longrightarrow> b \<noteq> NaN \<Longrightarrow> \<not> flt a b \<Longrightarrow> fle b a"
  by (cases a; cases b) (auto simp: fle_def feq_def)

lemma flt_fle: "flt a b \<Longrightarrow> fle a b"
  by (simp add: fle_def)

lemma flt_not_NaN: "flt a b \<Longrightarrow> a \<noteq> NaN \<and> b \<noteq> NaN"
  by (cases a; cases b) auto

lemma fle_not_NaN: "fle a b \<Longrightarrow> a \<noteq> NaN \<and> b \<noteq> NaN"
  by (cases a; cases b) (auto simp: fle_def feq_def)

lemma flt_NaN_right [simp]: "flt a NaN = False"
  by (cases a) simp_all

lemma extremes_Some:
  "\<exists>mx' mn'. extremes xs (Some mx, Some mn) = (Some mx', Some mn')"
  by (induction xs arbitrary: mx mn) auto

lemma extremes_NaN_max:
  "extremes xs (Some NaN, mn) = (mx', mn') \<Longrightarrow> mx' = Some NaN"
  by (induction xs arbitrary: mn) (auto simp: fgt_def split: option.splits)

lemma extremes_max:
  assumes "extremes xs (Some mx, Some mn) = (Some mx', Some mn')" "mx \<noteq> NaN"
  shows "fle mx mx' \<and> (\<forall>s\<in>set xs. s \<noteq> NaN \<longrightarrow> fle s mx')"
  using assms
proof (induction xs arbitrary: mx mn)
  case Nil
  then show ?case by (simp add: fle_refl)
next
  case (Cons s xs)
  define mx1 where "mx1 = (if fgt s mx then s else mx)"
  define mn1 where "mn1 = (if flt s mn then s else mn)"
  from Cons.prems(1) have run: "extremes xs (Some mx1, Some mn1) = (Some mx', Some mn')"
    by (auto simp: mx1_def mn1_def split: if_splits)
  have ok1: "mx1 \<noteq> NaN" using Cons.prems(2) flt_not_NaN [of mx s] by (auto simp: mx1_def fgt_def)
  have le1: "fle mx mx1" using Cons.prems(2) by (auto simp: mx1_def fgt_def flt_fle fle_refl)
  have s1: "s \<noteq> NaN \<Longrightarrow> fle s mx1"
    using Cons.prems(2) fle_total [of mx s] by (auto simp: mx1_def fgt_def fle_refl)
  from Cons.IH [OF run ok1] have ih: "fle mx1 mx'" "\<forall>t\<in>set xs. t \<noteq> NaN \<longrightarrow> fle t mx'"
    by simp_all
  show ?case using ih le1 s1 fle_trans by auto
qed

lemma extremes_min:
  assumes "extremes xs (Some mx, Some mn) = (Some mx', Some mn')" "mn \<noteq> NaN"
  shows "fle mn' mn \<and> (\<forall>s\<in>set xs. s \<noteq> NaN \<longrightarrow> fle mn' s)"
  using assms
proof (induction xs arbitrary: mx mn)
  case Nil
  then show ?case by (simp add: fle_refl)
next
  case (Cons s xs)
  define mx1 where "mx1 = (if fgt s mx then s else mx)"
  define mn1 where "mn1 = (if flt s mn then s else mn)"
  from Cons.prems(1) have run: "extremes xs (Some mx1, Some mn1) = (Some mx', Some mn')"
    by (auto simp: mx1_def mn1_def split: if_splits)
  have ok1: "mn1 \<noteq> NaN" using Cons.prems(2) flt_not_NaN [of s mn] by (auto simp: mn1_def)
  have le1: "fle mn1 mn" using Cons.prems(2) by (auto simp: mn1_def flt_fle fle_refl)
  have s1: "s \<noteq> NaN \<Longrightarrow> fle mn1 s"
    using Cons.prems(2) fle_total [of s mn] by (auto simp: mn1_def fle_refl)
  from Cons.IH [OF run ok1] have ih: "fle mn' mn1" "\<forall>t\<in>set xs. t \<noteq> NaN \<longrightarrow> fle mn' t"
    by simp_all
  show ?case using ih le1 s1 fle_trans by auto
qed

lemma extremes_NaN_min:
  "extremes xs (mx, Some NaN) = (mx', mn') \<Longrightarrow> mn' = Some NaN"
  by (induction xs arbitrary: mx) (auto split: option.splits)

lemma extremes_first:
  "extremes (s # xs) (None, None) = extremes xs (Some s, Some s)"
  by simp

text \<open>What the second loop leaves in \<open>max_score\<close> and \<open>min_score\<close>.\<close>

lemma extremes_bounds:
  assumes "extremes (s0 # xs) (None, None) = (mx, mn)"
  shows "\<exists>a b. mx = Some a \<and> mn = Some b \<and>
           (if s0 = NaN then a = NaN \<and> b = NaN
            else \<forall>s\<in>set (s0 # xs). s \<noteq> NaN \<longrightarrow> fle b s \<and> fle s a)"
proof -
  from extremes_Some [of xs s0 s0] obtain a b
    where ab: "extremes xs (Some s0, Some s0) = (Some a, Some b)" by blast
  with assms have mx: "mx = Some a" and mn: "mn = Some b" by simp_all
  show ?thesis
  proof (cases "s0 = NaN")
    case True
    with ab extremes_NaN_max [of xs "Some s0" "Some a" "Some b"]
      extremes_NaN_min [of xs "Some s0" "Some a" "Some b"]
    show ?thesis by (simp add: mx mn)
  next
    case False
    from extremes_max [OF ab False] extremes_min [OF ab False] False
    show ?thesis by (auto simp: mx mn intro: fle_trans)
  qed
qed

section \<open>The scaled score\<close>

lemma round_double_not_NaN [simp]: "round_double x \<noteq> NaN"
  by (simp add: round_double_def Let_def)

lemma round_double_nonneg:
  assumes "0 \<le> x"
  shows "round_double x = PInf \<or> (\<exists>y. round_double x = Fin y \<and> 0 \<le> y)"
  using round_double_mono [OF assms] by (cases "round_double x") (auto simp: fle_def feq_def)

lemma fsub_NaN [simp]: "fsub NaN b = NaN" "fsub a NaN = NaN"
  by (cases a; simp add: fsub_def)+

lemma fdiv_NaN_left: "fdiv NaN d = Inr q \<Longrightarrow> q = NaN"
  by (cases d) (auto split: if_splits)

lemma fdiv_NaN_right [simp]: "fdiv a NaN = Inr NaN"
  by (cases a) simp_all

lemma fmul_NaN_left [simp]: "fmul NaN b = NaN"
  by simp

lemma scaled_NaN:
  assumes "s = NaN \<or> mx = NaN \<or> mn = NaN"
  shows "scaled s mx mn \<noteq> Inr (Fin x)"
proof (cases "mx = NaN \<or> mn = NaN")
  case True
  then have "fsub mx mn = NaN" by auto
  then show ?thesis by (simp add: scaled_def)
next
  case False
  with assms have "fsub s mn = NaN" by simp
  then show ?thesis using fdiv_NaN_left [of "fsub mx mn"]
    by (auto simp: scaled_def split: sum.splits)
qed

text \<open>The finite case: \<open>0 \<le> a \<le> d\<close> for the two differences, so the quotient is in \<open>[0, 1]\<close>.\<close>

lemma quotient_range:
  assumes "0 \<le> a" "a \<le> d" "d \<noteq> 0"
  shows "\<exists>q. round_double (a / d) = Fin q \<and> 0 \<le> q \<and> q \<le> 1"
proof -
  from assms have "0 < d" by simp
  with assms have "0 \<le> a / d" "a / d \<le> 1" by simp_all
  then show ?thesis using round_double_between [of 0 "a / d" 1] by simp
qed

lemma percent_range:
  assumes "0 \<le> q" "q \<le> 1"
  shows "\<exists>r. round_double (q * 100) = Fin r \<and> 0 \<le> r \<and> r \<le> 100"
proof -
  from assms have "0 \<le> q * 100" "q * 100 \<le> 100" by simp_all
  then show ?thesis using round_double_between [of 0 "q * 100" 100] by simp
qed

lemma scaled_finite_range:
  assumes "scaled (Fin s) (Fin mx) (Fin mn) = Inr (Fin x)" "mn \<le> s" "s \<le> mx"
  shows "0 \<le> x \<and> x \<le> 100"
proof -
  have le: "fle (round_double (s - mn)) (round_double (mx - mn))"
    using assms(3) by (intro round_double_mono) simp
  from assms(2) have "0 \<le> s - mn" by simp
  from round_double_nonneg [OF this] consider "round_double (s - mn) = PInf"
    | a where "round_double (s - mn) = Fin a" "0 \<le> a" by blast
  then show ?thesis
  proof cases
    case 1
    with le have "round_double (mx - mn) = PInf"
      by (cases "round_double (mx - mn)") (auto simp: fle_def feq_def)
    with 1 assms(1) show ?thesis by (simp add: scaled_def fsub_def)
  next
    case 2
    show ?thesis
    proof (cases "round_double (mx - mn)")
      case (Fin d)
      with le 2 have ad: "a \<le> d" by (auto simp: fle_def feq_def)
      show ?thesis
      proof (cases "d = 0")
        case True
        with Fin 2 assms(1) show ?thesis by (simp add: scaled_def fsub_def)
      next
        case False
        from quotient_range [OF 2(2) ad False] obtain q
          where q: "round_double (a / d) = Fin q" "0 \<le> q" "q \<le> 1" by blast
        from percent_range [OF q(2,3)] obtain r
          where r: "round_double (q * 100) = Fin r" "0 \<le> r" "r \<le> 100" by blast
        from assms(1) Fin 2 False q r show ?thesis by (simp add: scaled_def fsub_def)
      qed
    next
      case PInf
      with 2 assms(1) show ?thesis by (simp add: scaled_def fsub_def)
    next
      case NInf
      with le 2 show ?thesis by (simp add: fle_def feq_def)
    next
      case NaN
      then show ?thesis by simp
    qed
  qed
qed

lemma fdiv_infinite:
  "\<nexists>d. b = Fin d \<Longrightarrow> fdiv a b = Inr q \<Longrightarrow> q = Fin 0 \<or> q = NaN"
  by (cases a; cases b) auto

lemma scaled_infinite:
  assumes "scaled s mx mn = Inr (Fin x)" "\<nexists>d. fsub mx mn = Fin d"
  shows "x = 0"
proof -
  from assms(1) obtain q where q: "fdiv (fsub s mn) (fsub mx mn) = Inr q" "fmul q (Fin 100) = Fin x"
    by (auto simp: scaled_def split: sum.splits)
  from fdiv_infinite [OF assms(2) q(1)] q(2) show ?thesis by auto
qed

lemma scaled_range:
  assumes "scaled s mx mn = Inr (Fin x)" "fle mn s" "fle s mx"
  shows "0 \<le> x \<and> x \<le> 100"
proof (cases "\<exists>a b c. s = Fin a \<and> mx = Fin b \<and> mn = Fin c")
  case True
  then obtain a b c where abc: "s = Fin a" "mx = Fin b" "mn = Fin c" by blast
  with assms(2,3) have "c \<le> a" "a \<le> b" by (auto simp: fle_def feq_def)
  with assms(1) abc show ?thesis by (intro scaled_finite_range [of a b c x]) simp_all
next
  case False
  with assms(2,3) have "\<nexists>b c. mx = Fin b \<and> mn = Fin c"
    by (cases s; cases mx; cases mn) (auto simp: fle_def feq_def)
  then have "\<nexists>d. fsub mx mn = Fin d"
    by (cases mx; cases mn) (auto simp: fsub_def)
  with assms(1) scaled_infinite [of s mx mn x] show ?thesis by auto
qed

lemma normalized_range:
  assumes "normalized (Some mx) (Some mn) s = Inr n"
    and "mx = NaN \<or> mn = NaN \<or> s = NaN \<or> (fle mn s \<and> fle s mx)"
  shows "0 \<le> n \<and> n \<le> 100"
proof (cases "feq mx mn")
  case True
  with assms(1) show ?thesis by (simp add: normalized_def opt_eq_def)
next
  case False
  with assms(1) obtain r where r: "scaled s mx mn = Inr r" "py_round r = Inr n"
    by (auto simp: normalized_def opt_eq_def split: sum.splits)
  then obtain x where x: "r = Fin x" "n = round_half_even x" by (cases r) auto
  from r(1) x(1) scaled_NaN [of s mx mn x] assms(2) have "fle mn s" "fle s mx" by auto
  from scaled_range [OF r(1) [unfolded x(1)] this] have "of_int 0 \<le> x" "x \<le> of_int 100" by simp_all
  then show ?thesis unfolding x(2) by (intro conjI rhe_ge_int rhe_le_int)
qed

lemma report_entries:
  "(c, l, n) \<in> set (fst (report mx mn contacts)) \<Longrightarrow>
   \<exists>s. (c, s) \<in> set contacts \<and> normalized mx mn s = Inr n \<and> l = get_quartile_label n"
  by (induction contacts) (fastforce split: sum.splits prod.splits)+

lemma label_in_range:
  "0 \<le> n \<Longrightarrow> n \<le> 100 \<Longrightarrow> get_quartile_label n \<in> {''platinum'', ''gold'', ''silver'', ''bronze''}"
  by (simp add: get_quartile_label_def QUARTILE_LABELS_def)

lemma emit_report_entries:
  assumes "(c, l, n) \<in> set (fst (emit_report contacts))"
  shows "0 \<le> n \<and> n \<le> 100 \<and> l = get_quartile_label n"
proof (cases contacts)
  case Nil
  with assms show ?thesis by (simp add: emit_report_def)
next
  case (Cons p rest)
  obtain mx mn where ex: "extremes (snd p # map snd rest) (None, None) = (mx, mn)"
    by (cases "extremes (snd p # map snd rest) (None, None)") blast
  from extremes_bounds [OF ex] obtain a b where ab: "mx = Some a" "mn = Some b"
    and bounds: "if snd p = NaN then a = NaN \<and> b = NaN
       else \<forall>s\<in>set (snd p # map snd rest). s \<noteq> NaN \<longrightarrow> fle b s \<and> fle s a"
    by blast
  from assms ex Cons have "(c, l, n) \<in> set (fst (report mx mn contacts))"
    by (simp add: emit_report_def)
  from report_entries [OF this] obtain s where s: "(c, s) \<in> set contacts"
    "normalized mx mn s = Inr n" "l = get_quartile_label n" by blast
  from s(1) Cons have "s \<in> set (snd p # map snd rest)" by force
  with bounds have "a = NaN \<or> b = NaN \<or> s = NaN \<or> (fle b s \<and> fle s a)"
    by (auto split: if_splits)
  from normalized_range [OF s(2) [unfolded ab] this] s(3) show ?thesis by simp
qed

lemma emit_report_report:
  "emit_report contacts = report (max_score contacts) (min_score contacts) contacts"
  by (simp add: emit_report_def max_score_def min_score_def split: prod.splits)

lemma process_file_entries:
  "fst (process_file rows) = [] \<or> (\<exists>contacts. fst (process_file rows) = fst (emit_report contacts))"
  by (auto simp: process_file_def split: sum.splits)

lemma report_nth:
  "i < length (fst (report mx mn contacts)) \<Longrightarrow>
   i < length contacts \<and>
   (\<exists>n. normalized mx mn (snd (contacts ! i)) = Inr n \<and>
        fst (report mx mn contacts) ! i = (fst (contacts ! i), get_quartile_label n, n))"
proof (induction contacts arbitrary: i)
  case Nil
  then show ?case by simp
next
  case (Cons p rest)
  obtain c s where p: "p = (c, s)" by (cases p)
  show ?case
  proof (cases "normalized mx mn s")
    case (Inl e)
    with Cons.prems p show ?thesis by simp
  next
    case (Inr n)
    obtain es st where r: "report mx mn rest = (es, st)" by (cases "report mx mn rest")
    show ?thesis
    proof (cases i)
      case 0
      with Inr p r show ?thesis by simp
    next
      case (Suc j)
      with Cons.prems Inr p r have "j < length (fst (report mx mn rest))" by simp
      from Cons.IH [OF this] Suc Inr p r show ?thesis by simp
    qed
  qed
qed

lemma report_keys:
  "map fst (fst (report mx mn contacts)) =
     take (length (fst (report mx mn contacts))) (map fst contacts)"
  by (induction contacts) (auto split: sum.splits prod.splits)

lemma report_done:
  "snd (report mx mn contacts) = None \<Longrightarrow> length (fst (report mx mn contacts)) = length contacts"
  by (induction contacts) (auto split: sum.splits prod.splits)

lemma report_all:
  assumes "\<forall>s\<in>set (map snd contacts). normalized mx mn s = Inr (f s)"
  shows "report mx mn contacts = (map (\<lambda>(c, s). (c, get_quartile_label (f s), f s)) contacts, None)"
  using assms by (induction contacts) auto

lemma extremes_const:
  "\<forall>s\<in>set xs. s = v \<Longrightarrow> extremes xs (Some v, Some v) = (Some v, Some v)"
  by (induction xs) (auto simp: fgt_def; cases v; simp)+

lemma extremes_Fin:
  "extremes (map Fin xs) (Some (Fin a), Some (Fin b)) =
     (Some (Fin (fold max xs a)), Some (Fin (fold min xs b)))"
proof (induction xs arbitrary: a b)
  case Nil
  show ?case by simp
next
  case (Cons x xs)
  have "(if a < x then Fin x else Fin a) = Fin (max x a)"
    "(if x < b then Fin x else Fin b) = Fin (min x b)"
    by (simp_all add: max_def min_def)
  then show ?case using Cons.IH [of "max x a" "min x b"]
    by (simp add: fgt_def if_distrib [of Some, symmetric])
qed

lemma extremes_Max_Min:
  assumes "xs \<noteq> []"
  shows "extremes (map Fin xs) (None, None) = (Some (Fin (Max (set xs))), Some (Fin (Min (set xs))))"
proof -
  from assms obtain x ys where xs: "xs = x # ys" by (cases xs) auto
  show ?thesis unfolding xs
    by (simp only: list.map extremes_first extremes_Fin Max.set_eq_fold Min.set_eq_fold)
qed

lemma fsub_Fin [simp]: "fsub (Fin a) (Fin b) = round_double (a - b)"
  by (simp add: fsub_def)

text \<open>The score of one contact between the extremes, when their difference is finite.\<close>

lemma normalized_finite:
  assumes d: "round_double (M - m) = Fin d" "d \<noteq> 0" and x: "m \<le> x" "x \<le> M"
  shows "\<exists>n. normalized (Some (Fin M)) (Some (Fin m)) (Fin x) = Inr n \<and>
             (x = m \<longrightarrow> n = 0) \<and> (x = M \<longrightarrow> n = 100)"
proof -
  have ne: "\<not> opt_eq (Some (Fin M)) (Some (Fin m))"
    using d by (auto simp: opt_eq_def feq_def)
  have "fle (round_double 0) (round_double (x - m))" using x(1) by (intro round_double_mono) simp
  moreover have "fle (round_double (x - m)) (round_double (M - m))"
    using x(2) by (intro round_double_mono) simp
  ultimately obtain a where a: "round_double (x - m) = Fin a" "0 \<le> a" "a \<le> d"
    using d(1) by (cases "round_double (x - m)") (auto simp: fle_def feq_def)
  from quotient_range [OF a(2,3) d(2)] obtain q
    where q: "round_double (a / d) = Fin q" "0 \<le> q" "q \<le> 1" by blast
  from percent_range [OF q(2,3)] obtain r
    where r: "round_double (q * 100) = Fin r" by blast
  have n: "normalized (Some (Fin M)) (Some (Fin m)) (Fin x) = Inr (round_half_even r)"
    using ne a(1) d q(1) r by (simp add: normalized_def scaled_def)
  have "round_half_even r = 0" if "x = m"
  proof -
    from that a(1) have "a = 0" by simp
    with q(1) have "q = 0" by simp
    with r have "r = of_int 0" by simp
    then show ?thesis by (simp only: rhe_of_int)
  qed
  moreover have "round_half_even r = 100" if "x = M"
  proof -
    from that a(1) d(1) have "a = d" by simp
    with q(1) d(2) have "q = 1" by simp
    with r have "r = of_int 100" by simp
    then show ?thesis by (simp only: rhe_of_int)
  qed
  ultimately show ?thesis using n by simp
qed

section \<open>The first loop\<close>

lemma parse_row_strings:
  "parse_row (map PyStr fields) =
     (if length fields < 3 then (Inl (ValidationError ''Malformed row''), map PyStr fields)
      else case py_int (fields ! 0) of
             None \<Rightarrow> (Inl (ValidationError ''Bad contact id''), map PyStr fields)
           | Some n \<Rightarrow>
               if fields ! 1 \<notin> set EVENT_TYPES
               then (Inl (ValidationError ''Unknown event type''), (map PyStr fields)[0 := PyInt n])
               else case py_float (fields ! 2) of
                      None \<Rightarrow> (Inl (ValidationError ''Bad score''), (map PyStr fields)[0 := PyInt n])
                    | Some f \<Rightarrow>
                        (Inr ((map PyStr fields)[0 := PyInt n, 2 := PyFloat f]),
                         (map PyStr fields)[0 := PyInt n, 2 := PyFloat f]))"
proof (cases "length fields < 3")
  case True
  then show ?thesis by (simp add: parse_row_def)
next
  case False
  then have len: "0 < length fields" "1 < length fields" "2 < length fields"
    by linarith+
  have nth: "map PyStr fields ! 0 = PyStr (fields ! 0)"
    "map PyStr fields ! 1 = PyStr (fields ! 1)" "map PyStr fields ! 2 = PyStr (fields ! 2)"
    using len by (simp_all only: nth_map)
  have mem: "PyStr t \<in> PyStr ` set EVENT_TYPES \<longleftrightarrow> t \<in> set EVENT_TYPES" for t
    by auto
  from False show ?thesis
    by (simp add: parse_row_def nth mem Let_def split: option.splits)
qed

lemma typed_row:
  "3 \<le> length fields \<Longrightarrow>
   (map PyStr fields)[0 := PyInt n, 2 := PyFloat f] =
     PyInt n # PyStr (fields ! 1) # PyFloat f # map PyStr (drop 3 fields)"
  by (cases fields; cases "tl fields"; cases "tl (tl fields)") (auto simp: drop_Suc numeral_3_eq_3)

lemma accepted_iff:
  "accepted r \<longleftrightarrow>
     3 \<le> length r \<and> py_int (r ! 0) \<noteq> None \<and> r ! 1 \<in> set EVENT_TYPES \<and> py_float (r ! 2) \<noteq> None"
  by (cases "length r < 3"; cases "py_int (r ! 0)"; cases "r ! 1 \<in> set EVENT_TYPES";
      cases "py_float (r ! 2)")
     (simp_all add: accepted_def parse_row_strings)

lemma rejected_row:
  "\<not> accepted r \<Longrightarrow> \<exists>msg. fst (parse_row (map PyStr r)) = Inl (ValidationError msg)"
  by (cases "length r < 3"; cases "py_int (r ! 0)"; cases "r ! 1 \<in> set EVENT_TYPES";
      cases "py_float (r ! 2)")
     (simp_all add: accepted_def parse_row_strings)

lemma accepted_row:
  assumes "accepted r"
  shows "fst (parse_row (map PyStr r)) =
           Inr (PyInt (contact_of r) # PyStr (r ! 1) # PyFloat (the (py_float (r ! 2))) # map PyStr (drop 3 r))"
  using assms by (auto simp: accepted_iff parse_row_strings typed_row contact_of_def)

lemma weight_known: "t \<in> set EVENT_TYPES \<Longrightarrow> map_of EVENT_FACTORS t = Some (weight t)"
  by (auto simp: EVENT_TYPES_def EVENT_FACTORS_def weight_def)

lemma aggregate_row_ok:
  assumes "accepted r \<longrightarrow> length r \<le> 3"
  shows "aggregate (map PyStr r # rows) contacts = aggregate rows (add_row contacts r)"
proof (cases "accepted r")
  case False
  from rejected_row [OF False] obtain msg
    where "fst (parse_row (map PyStr r)) = Inl (ValidationError msg)" ..
  with False show ?thesis by (simp add: add_row_def)
next
  case True
  with assms have len: "length r = 3" by (simp add: accepted_iff)
  from True have t: "r ! 1 \<in> set EVENT_TYPES" by (simp add: accepted_iff)
  from len accepted_row [OF True] weight_known [OF t] True show ?thesis
    by (simp add: unpack3_def add_event_def add_row_def weighted_def)
qed

lemma aggregate_row_extra:
  assumes "accepted r" "3 < length r"
  shows "aggregate (map PyStr r # rows) contacts = Inl ValueError"
proof -
  from assms(2) obtain x xs where "drop 3 r = x # xs" by (cases "drop 3 r") auto
  with accepted_row [OF assms(1)] show ?thesis by (simp add: unpack3_def)
qed

lemma aggregate_ok:
  "\<forall>r\<in>set rows. accepted r \<longrightarrow> length r \<le> 3 \<Longrightarrow>
   aggregate (map (map PyStr) rows) contacts = Inr (foldl add_row contacts rows)"
  by (induction rows arbitrary: contacts) (simp_all add: aggregate_row_ok del: aggregate.simps(2))

lemma aggregate_extra:
  "\<exists>r\<in>set rows. accepted r \<and> 3 < length r \<Longrightarrow>
   aggregate (map (map PyStr) rows) contacts = Inl ValueError"
proof (induction rows arbitrary: contacts)
  case Nil
  then show ?case by simp
next
  case (Cons r rows)
  show ?case
  proof (cases "accepted r \<and> 3 < length r")
    case True
    then show ?thesis by (simp add: aggregate_row_extra del: aggregate.simps(2))
  next
    case False
    then have "accepted r \<longrightarrow> length r \<le> 3" by auto
    moreover from False Cons.prems have "\<exists>r\<in>set rows. accepted r \<and> 3 < length r" by auto
    ultimately show ?thesis using Cons.IH by (simp add: aggregate_row_ok del: aggregate.simps(2))
  qed
qed

lemma iadd_keys:
  "map fst (iadd k v cs) = (if k \<in> fst ` set cs then map fst cs else map fst cs @ [k])"
  by (induction cs) force+

lemma iadd_map_of:
  "map_of (iadd k v cs) =
     (map_of cs)(k \<mapsto> fadd (case map_of cs k of None \<Rightarrow> Fin 0 | Some t \<Rightarrow> t) v)"
  by (induction cs) (auto simp: fun_eq_iff)

lemma first_seen_filter:
  "filter P (removeAll x xs) = filter (\<lambda>k. P k \<and> k \<noteq> x) xs"
  by (induction xs) auto

lemma iadd_key_set: "fst ` set (iadd k v cs) = insert k (fst ` set cs)"
proof -
  have "set (map fst (iadd k v cs)) = insert k (set (map fst cs))"
    unfolding iadd_keys by auto
  then show ?thesis by simp
qed

lemma keys_foldl_add_row:
  "map fst (foldl add_row cs rows) =
     map fst cs @ filter (\<lambda>k. k \<notin> fst ` set cs) (first_seen (map contact_of (filter accepted rows)))"
proof (induction rows arbitrary: cs)
  case Nil
  show ?case by simp
next
  case (Cons r rows)
  show ?case
  proof (cases "accepted r")
    case False
    then show ?thesis using Cons.IH [of cs] by (simp add: add_row_def)
  next
    case True
    define k where "k = contact_of r"
    define ids where "ids = first_seen (map contact_of (filter accepted rows))"
    have step: "foldl add_row cs (r # rows) = foldl add_row (iadd k (weighted r) cs) rows"
      using True by (simp add: add_row_def k_def)
    have keys: "fst ` set (iadd k (weighted r) cs) = insert k (fst ` set cs)"
      by (rule iadd_key_set)
    show ?thesis
    proof (cases "k \<in> fst ` set cs")
      case in_cs: True
      then have "filter (\<lambda>j. j \<notin> fst ` set cs) (k # removeAll k ids) = filter (\<lambda>j. j \<notin> fst ` set cs) ids"
        by (auto simp: first_seen_filter intro: filter_cong)
      with in_cs True show ?thesis unfolding step
        using Cons.IH [of "iadd k (weighted r) cs"]
        by (simp add: iadd_keys keys insert_absorb k_def [symmetric] ids_def [symmetric])
    next
      case out: False
      have "filter (\<lambda>j. j \<notin> insert k (fst ` set cs)) ids = filter (\<lambda>j. j \<notin> fst ` set cs) (removeAll k ids)"
        by (auto simp: first_seen_filter intro: filter_cong)
      with out True show ?thesis unfolding step
        using Cons.IH [of "iadd k (weighted r) cs"]
        by (simp add: iadd_keys keys k_def [symmetric] ids_def [symmetric])
    qed
  qed
qed

lemma keys_first_seen:
  "map fst (foldl add_row [] rows) = first_seen_ids rows"
  by (simp add: keys_foldl_add_row first_seen_ids_def)

lemma set_first_seen [simp]: "set (first_seen xs) = set xs"
  by (induction xs) auto

lemma distinct_first_seen [simp]: "distinct (first_seen xs)"
  by (induction xs) (auto simp: distinct_removeAll)

text \<open>The total of one contact: its weighted scores added in row order, from \<^verbatim>\<open>0.0\<close>.\<close>

lemma total_foldl_add_row:
  "map_of (foldl add_row cs rows) k =
     (case map weighted (filter (\<lambda>r. accepted r \<and> contact_of r = k) rows) of
        [] \<Rightarrow> map_of cs k
      | w # ws \<Rightarrow> Some (foldl fadd (case map_of cs k of None \<Rightarrow> Fin 0 | Some t \<Rightarrow> t) (w # ws)))"
proof (induction rows arbitrary: cs)
  case Nil
  show ?case by simp
next
  case (Cons r rows)
  show ?case
  proof (cases "accepted r")
    case False
    then show ?thesis using Cons.IH [of cs] by (simp add: add_row_def)
  next
    case True
    then show ?thesis using Cons.IH [of "iadd (contact_of r) (weighted r) cs"]
      by (auto simp: add_row_def iadd_map_of split: list.splits)
  qed
qed

lemma is_double_weighted [simp]: "is_double (weighted r)"
  by (simp add: weighted_def is_double_fmul)

lemma is_double_zero [simp]: "is_double (Fin 0)"
  by (simp add: is_double_def)

lemma iadd_doubles:
  "is_double v \<Longrightarrow> \<forall>t\<in>snd ` set cs. is_double t \<Longrightarrow> \<forall>t\<in>snd ` set (iadd k v cs). is_double t"
proof (induction cs)
  case Nil
  then show ?case by (simp add: is_double_fadd)
next
  case (Cons p cs)
  obtain k' t where p: "p = (k', t)" by (cases p)
  from Cons.prems p have t: "is_double t" and rest: "\<forall>t\<in>snd ` set cs. is_double t" by auto
  show ?case
  proof (cases "k = k'")
    case True
    with Cons.prems t rest p show ?thesis by (auto simp: is_double_fadd)
  next
    case False
    with Cons.IH [OF Cons.prems(1) rest] t p show ?thesis by auto
  qed
qed

lemma foldl_add_row_doubles:
  "\<forall>t\<in>snd ` set cs. is_double t \<Longrightarrow> \<forall>t\<in>snd ` set (foldl add_row cs rows). is_double t"
proof (induction rows arbitrary: cs)
  case Nil
  then show ?case by simp
next
  case (Cons r rows)
  have "\<forall>t\<in>snd ` set (add_row cs r). is_double t"
    using iadd_doubles [OF is_double_weighted Cons.prems] Cons.prems by (simp add: add_row_def)
  from Cons.IH [OF this] show ?case by simp
qed

lemma extremes_mem:
  "extremes xs (Some mx, Some mn) = (Some a, Some b) \<Longrightarrow>
   a \<in> insert mx (set xs) \<and> b \<in> insert mn (set xs)"
proof (induction xs arbitrary: mx mn)
  case Nil
  then show ?case by simp
next
  case (Cons s xs)
  define mx1 where "mx1 = (if fgt s mx then s else mx)"
  define mn1 where "mn1 = (if flt s mn then s else mn)"
  from Cons.prems have "extremes xs (Some mx1, Some mn1) = (Some a, Some b)"
    by (auto simp: mx1_def mn1_def split: if_splits)
  from Cons.IH [OF this] show ?case by (auto simp: mx1_def mn1_def split: if_splits)
qed

lemma fsub_not_zero:
  assumes "is_double mx" "is_double mn" "\<not> feq mx mn" "mx \<noteq> NaN"
  shows "fsub mx mn \<noteq> Fin 0"
proof (cases "\<exists>a b. mx = Fin a \<and> mn = Fin b")
  case True
  then obtain a b where ab: "mx = Fin a" "mn = Fin b" by blast
  with assms have "round_double a = Fin a" "round_double b = Fin b" "a \<noteq> b"
    by (auto simp: is_double_def feq_def)
  from sub_nonzero [OF this] ab show ?thesis by simp
next
  case False
  then show ?thesis by (cases mx; cases mn) (auto simp: fsub_def)
qed

text \<open>
  On doubles between the extremes the scaled score is finite or NaN: the division never
  sees a zero, and \<^verbatim>\<open>round\<close> never an infinity.
\<close>

lemma scaled_cases:
  assumes "is_double mx" "is_double mn" "\<not> feq mx mn"
    and "mx = NaN \<or> mn = NaN \<or> s = NaN \<or> (fle mn s \<and> fle s mx)"
  shows "(\<exists>x. scaled s mx mn = Inr (Fin x)) \<or> scaled s mx mn = Inr NaN"
proof (cases "mx = NaN \<or> mn = NaN")
  case True
  then have "fsub mx mn = NaN" by auto
  then show ?thesis by (simp add: scaled_def)
next
  case False
  with fsub_not_zero [OF assms(1-3)] have nz: "fsub mx mn \<noteq> Fin 0" by simp
  show ?thesis
  proof (cases "s = NaN")
    case True
    with nz show ?thesis by (cases "fsub mx mn") (auto simp: scaled_def)
  next
    case notnan: False
    with False assms(4) have le: "fle mn s" "fle s mx" by auto
    show ?thesis
    proof (cases "\<exists>d. fsub mx mn = Fin d")
      case inf: False
      obtain q where q: "fdiv (fsub s mn) (fsub mx mn) = Inr q"
        using inf by (cases "fsub s mn"; cases "fsub mx mn") auto
      from fdiv_infinite [OF inf q] q show ?thesis by (auto simp: scaled_def)
    next
      case True
      then obtain d where d: "fsub mx mn = Fin d" ..
      then obtain M m where Mm: "mx = Fin M" "mn = Fin m"
        by (cases mx; cases mn) (auto simp: fsub_def)
      with le obtain x where x: "s = Fin x" "m \<le> x" "x \<le> M"
        by (cases s) (auto simp: fle_def feq_def)
      from d nz Mm have "round_double (M - m) = Fin d" "d \<noteq> 0" by simp_all
      from normalized_finite [OF this x(2,3)] obtain n
        where "normalized (Some (Fin M)) (Some (Fin m)) (Fin x) = Inr n" by blast
      then show ?thesis unfolding Mm x(1) using assms(3) Mm
        by (cases "scaled (Fin x) (Fin M) (Fin m)")
           (auto simp: normalized_def opt_eq_def elim: py_round.elims split: if_splits)
    qed
  qed
qed

lemma normalized_error:
  assumes "is_double mx" "is_double mn"
    and "mx = NaN \<or> mn = NaN \<or> s = NaN \<or> (fle mn s \<and> fle s mx)"
    and "normalized (Some mx) (Some mn) s = Inl e"
  shows "e = ValueError"
proof -
  from assms(4) have ne: "\<not> feq mx mn"
    by (auto simp: normalized_def opt_eq_def split: if_splits)
  from scaled_cases [OF assms(1,2) ne assms(3)] assms(4) ne show ?thesis
    by (auto simp: normalized_def opt_eq_def)
qed

lemma report_stop:
  "\<forall>s\<in>snd ` set contacts. \<forall>e. normalized mx mn s = Inl e \<longrightarrow> e = ValueError \<Longrightarrow>
   snd (report mx mn contacts) = None \<or> snd (report mx mn contacts) = Some ValueError"
  by (induction contacts) (auto split: sum.splits prod.splits)

lemma emit_report_stop:
  assumes "\<forall>t\<in>snd ` set contacts. is_double t"
  shows "snd (emit_report contacts) = None \<or> snd (emit_report contacts) = Some ValueError"
proof (cases contacts)
  case Nil
  then show ?thesis by (simp add: emit_report_def)
next
  case (Cons p rest)
  obtain mx mn where ex: "extremes (snd p # map snd rest) (None, None) = (mx, mn)"
    by (cases "extremes (snd p # map snd rest) (None, None)") blast
  from extremes_bounds [OF ex] obtain a b where ab: "mx = Some a" "mn = Some b"
    and bounds: "if snd p = NaN then a = NaN \<and> b = NaN
       else \<forall>s\<in>set (snd p # map snd rest). s \<noteq> NaN \<longrightarrow> fle b s \<and> fle s a"
    by blast
  from ex ab extremes_mem [of "map snd rest" "snd p" "snd p" a b]
  have "a \<in> snd ` set contacts" "b \<in> snd ` set contacts" by (auto simp: Cons)
  with assms have dbl: "is_double a" "is_double b" by auto
  have "\<forall>s\<in>snd ` set contacts. \<forall>e. normalized mx mn s = Inl e \<longrightarrow> e = ValueError"
  proof (intro ballI allI impI)
    fix s e assume s: "s \<in> snd ` set contacts" and e: "normalized mx mn s = Inl e"
    from s Cons have "s \<in> set (snd p # map snd rest)" by force
    with bounds have "a = NaN \<or> b = NaN \<or> s = NaN \<or> (fle b s \<and> fle s a)"
      by (auto split: if_splits)
    from normalized_error [OF dbl this e [unfolded ab]] show "e = ValueError" .
  qed
  from report_stop [OF this] ex Cons show ?thesis by (simp add: emit_report_def)
qed

lemma process_file_ok:
  assumes "\<forall>r\<in>set rows. accepted r \<longrightarrow> length r \<le> 3"
  shows "process_file rows = emit_report (foldl add_row [] rows)"
  by (simp add: process_file_def aggregate_ok [OF assms])

section \<open>\<^verbatim>\<open>parse_row\<close>\<close>






section \<open>\<^verbatim>\<open>get_quartile_label\<close>\<close>

text \<open>
  Claim C6. The label of an integer score is the band whose inclusive range holds it:
  platinum for 75 to 100, gold for 50 to 74, silver for 25 to 49, bronze for 0 to 24;
  a score outside 0 to 100 gets the empty string. The function is total: no score
  makes it raise.
\<close>

theorem get_quartile_label_bands:
  "get_quartile_label score =
     (if 75 \<le> score \<and> score \<le> 100 then ''platinum''
      else if 50 \<le> score \<and> score \<le> 74 then ''gold''
      else if 25 \<le> score \<and> score \<le> 49 then ''silver''
      else if 0 \<le> score \<and> score \<le> 24 then ''bronze''
      else [])"
  by (simp add: get_quartile_label_def QUARTILE_LABELS_def)

theorem get_quartile_label_bands_witness:
  "get_quartile_label 75 = ''platinum'' \<and> get_quartile_label 74 = ''gold'' \<and>
   get_quartile_label 25 = ''silver'' \<and> get_quartile_label 24 = ''bronze'' \<and>
   get_quartile_label 120 = [] \<and> get_quartile_label (- 1) = []"
  using get_quartile_label_bands [of 75] get_quartile_label_bands [of 74]
    get_quartile_label_bands [of 25] get_quartile_label_bands [of 24]
    get_quartile_label_bands [of 120] get_quartile_label_bands [of "- 1"]
  by simp

section \<open>Rows with more than three fields\<close>

text \<open>
  Claim C5. \<^verbatim>\<open>parse_row\<close> accepts a row of four fields and returns all four;
  \<^verbatim>\<open>process_file\<close> unpacks what it returns into three names, which raises
  \<^verbatim>\<open>ValueError\<close>, an exception the loop does not catch. The run stops before it
  yields anything, where the same rows without the fourth field give a report.
\<close>

theorem process_file_extra_field:
  "process_file [[''1'', ''web'', ''5'', ''x''], [''2'', ''web'', ''8'']] = ([], Some ValueError) \<and>
   process_file [[''1'', ''web'', ''5''], [''2'', ''web'', ''8'']] =
     ([(1, ''bronze'', 0), (2, ''platinum'', 100)], None)"
  by code_simp

text \<open>
  Claim C2. The same defect leaves a stream with such a row without a final aggregate:
  the aggregation loop stops at the row.
\<close>

theorem aggregate_extra_field:
  "aggregate (map (map PyStr) [[''1'', ''web'', ''2''], [''2'', ''webinar'', ''3'', ''note''], [''1'', ''web'', ''4'']]) []
     = Inl ValueError"
  by code_simp

text \<open>
  One accepted row with more than three fields, anywhere in the input, stops the run
  with \<^verbatim>\<open>ValueError\<close> before the first entry.
\<close>

theorem process_file_extra_fields:
  assumes "\<exists>r\<in>set rows. accepted r \<and> 3 < length r"
  shows "process_file rows = ([], Some ValueError)"
  by (simp add: process_file_def aggregate_extra [OF assms])

theorem process_file_extra_fields_witness:
  "process_file [[''2'', ''web'', ''8''], [''1'', ''web'', ''5'', ''x'']] = ([], Some ValueError)"
proof -
  have "accepted [''1'', ''web'', ''5'', ''x'']" by code_simp
  then have "\<exists>r\<in>set [[''2'', ''web'', ''8''], [''1'', ''web'', ''5'', ''x'']]. accepted r \<and> 3 < length r"
    by simp
  from process_file_extra_fields [OF this] show ?thesis .
qed

section \<open>The aggregate\<close>

text \<open>
  The aggregate. On rows none of which is accepted with more than three fields the first
  loop ends with one total per contact id of the accepted rows, in first-seen order; the
  total is the first weighted score of that contact, with the later ones added to it in
  row order by float addition.
\<close>

theorem aggregate_totals:
  assumes "\<forall>r\<in>set rows. accepted r \<longrightarrow> length r \<le> 3"
  shows "\<exists>contacts. aggregate (map (map PyStr) rows) [] = Inr contacts \<and>
           map fst contacts = first_seen_ids rows \<and>
           (\<forall>k. map_of contacts k =
              (case map weighted (filter (\<lambda>r. accepted r \<and> contact_of r = k) rows) of
                 [] \<Rightarrow> None
               | w # ws \<Rightarrow> Some (foldl fadd w ws)))"
proof -
  have first: "fadd (Fin 0) w = w" if "map weighted xs = w # ws" for xs w ws
  proof -
    have "w \<in> set (map weighted xs)" unfolding that by simp
    then obtain r where "w = weighted r" by auto
    then show ?thesis by (simp add: fadd_zero)
  qed
  have "map_of (foldl add_row [] rows) k =
      (case map weighted (filter (\<lambda>r. accepted r \<and> contact_of r = k) rows) of
         [] \<Rightarrow> None | w # ws \<Rightarrow> Some (foldl fadd w ws))" for k
    by (auto simp: total_foldl_add_row first split: list.splits)
  with aggregate_ok [OF assms, of "[]"] keys_first_seen [of rows] show ?thesis by blast
qed

theorem aggregate_totals_witness:
  "\<exists>contacts. aggregate (map (map PyStr) [[''1'', ''web'', ''5''], [''x''], [''1'', ''webinar'', ''1'']]) [] = Inr contacts \<and>
     map fst contacts = [1] \<and> map_of contacts 1 = Some (Fin 7)"
proof -
  let ?rows = "[[''1'', ''web'', ''5''], [''x''], [''1'', ''webinar'', ''1'']]"
  have 1: "\<forall>r\<in>set ?rows. accepted r \<longrightarrow> length r \<le> 3" by simp
  have 2: "first_seen_ids ?rows = [1]" by code_simp
  have 3: "map weighted (filter (\<lambda>r. accepted r \<and> contact_of r = 1) ?rows) = [Fin 5, Fin 2]"
    by code_simp
  have 4: "foldl fadd (Fin 5) [Fin 2] = Fin 7" by code_simp
  from aggregate_totals [OF 1] obtain contacts
    where c: "aggregate (map (map PyStr) ?rows) [] = Inr contacts"
      "map fst contacts = first_seen_ids ?rows"
      "map_of contacts 1 =
         (case map weighted (filter (\<lambda>r. accepted r \<and> contact_of r = 1) ?rows) of
            [] \<Rightarrow> None | w # ws \<Rightarrow> Some (foldl fadd w ws))"
    by blast
  from c(3) have "map_of contacts 1 = Some (Fin 7)" unfolding 3 using 4 by simp
  with c(1,2) 2 show ?thesis by auto
qed

text \<open>The weights: \<^verbatim>\<open>1.0\<close>, the double nearest to 1.2, \<^verbatim>\<open>1.5\<close> and \<^verbatim>\<open>2.0\<close>.\<close>

theorem weights:
  "weight ''web'' = Fin 1 \<and>
   weight ''email'' = Fin (5404319552844595 / 4503599627370496) \<and>
   weight ''social'' = Fin (3 / 2) \<and> weight ''webinar'' = Fin 2"
proof -
  have "round_double (12 / 10) = Fin (5404319552844595 / 4503599627370496)" by code_simp
  with round_double_dyadic [of 3 1] round_double_of_int [of 2] show ?thesis
    by (simp add: weight_def EVENT_FACTORS_def)
qed

section \<open>Normalized scores\<close>

text \<open>
  Claim C8. Whatever the aggregate, every entry that \<^verbatim>\<open>process_file\<close> yields carries
  a normalized score between 0 and 100 and the label of that score, which is one of the
  four bands: the lookup never reaches its empty-label branch. A contact whose scaled
  score is NaN gets no entry at all (the run raises there), so no score outside the range
  is ever produced. Stated for the second half of \<^verbatim>\<open>process_file\<close> on any aggregate
  and for \<^verbatim>\<open>process_file\<close> on any rows.
\<close>

theorem normalized_in_range:
  "(\<forall>(c, l, n) \<in> set (fst (emit_report contacts)).
      0 \<le> n \<and> n \<le> 100 \<and> l = get_quartile_label n \<and>
      l \<in> {''platinum'', ''gold'', ''silver'', ''bronze''}) \<and>
   (\<forall>(c, l, n) \<in> set (fst (process_file rows)).
      0 \<le> n \<and> n \<le> 100 \<and> l = get_quartile_label n \<and>
      l \<in> {''platinum'', ''gold'', ''silver'', ''bronze''})"
proof -
  have main: "0 \<le> n \<and> n \<le> 100 \<and> l = get_quartile_label n \<and>
      l \<in> {''platinum'', ''gold'', ''silver'', ''bronze''}"
    if "(c, l, n) \<in> set (fst (emit_report cs))" for c l n cs
    using emit_report_entries [OF that] label_in_range [of n] by blast
  have "0 \<le> n \<and> n \<le> 100 \<and> l = get_quartile_label n \<and>
      l \<in> {''platinum'', ''gold'', ''silver'', ''bronze''}"
    if "(c, l, n) \<in> set (fst (process_file rows))" for c l n
  proof -
    from process_file_entries [of rows] that obtain cs
      where "(c, l, n) \<in> set (fst (emit_report cs))" by auto
    then show ?thesis by (rule main)
  qed
  with main show ?thesis by blast
qed

theorem normalized_in_range_witness:
  "(3, ''bronze'', 12) \<in> set (fst (emit_report [(1, Fin 0), (2, Fin 8), (3, Fin 1)])) \<and>
   ''bronze'' = get_quartile_label 12 \<and>
   (2, ''platinum'', 100) \<in> set (fst (process_file [[''1'', ''web'', ''5''], [''2'', ''web'', ''8'']])) \<and>
   ''platinum'' = get_quartile_label 100"
proof -
  have 1: "(3, ''bronze'', 12) \<in> set (fst (emit_report [(1, Fin 0), (2, Fin 8), (3, Fin 1)]))"
    by code_simp
  have 2: "(2, ''platinum'', 100) \<in> set (fst (process_file [[''1'', ''web'', ''5''], [''2'', ''web'', ''8'']]))"
    by code_simp
  from normalized_in_range [of "[(1, Fin 0), (2, Fin 8), (3, Fin 1)]"
      "[[''1'', ''web'', ''5''], [''2'', ''web'', ''8'']]"] 1 2
  show ?thesis by blast
qed

text \<open>
  Claim C3, as stated, fails on a single contact whose total is NaN (the field
  \<^verbatim>\<open>nan\<close> parses as a float): \<^verbatim>\<open>max_score == min_score\<close> is false for NaN, the
  scaled score is NaN and \<^verbatim>\<open>round\<close> raises \<^verbatim>\<open>ValueError\<close>.
\<close>

theorem single_nan_total_raises:
  "aggregate (map (map PyStr) [[''1'', ''web'', ''nan'']]) [] = Inr [(1, NaN)] \<and>
   emit_report [(1, NaN)] = ([], Some ValueError) \<and>
   process_file [[''1'', ''web'', ''nan'']] = ([], Some ValueError)"
  by code_simp

text \<open>
  Claim C3, amended. When all totals are equal under the float \<^verbatim>\<open>==\<close> (no NaN is equal
  to anything, itself included, so a single contact qualifies when its total is not NaN),
  the run completes and every contact gets the normalized score 0.
\<close>

theorem emit_report_all_equal:
  assumes "\<forall>(c, s) \<in> set contacts. \<forall>(c', s') \<in> set contacts. feq s s'"
  shows "emit_report contacts = (map (\<lambda>(c, s). (c, ''bronze'', 0)) contacts, None)"
proof (cases contacts)
  case Nil
  then show ?thesis by (simp add: emit_report_def)
next
  case (Cons p rest)
  obtain c v where p: "p = (c, v)" by (cases p)
  from assms Cons p have v: "feq v v" and all: "\<forall>s\<in>set (map snd contacts). s = v"
    by (auto simp: feq_def)
  from all Cons p have "extremes (map snd contacts) (None, None) = (Some v, Some v)"
    using extremes_const [of "map snd rest" v] by simp
  then have ex: "max_score contacts = Some v" "min_score contacts = Some v"
    by (simp_all add: max_score_def min_score_def)
  have "\<forall>s\<in>set (map snd contacts). normalized (Some v) (Some v) s = Inr ((\<lambda>_. 0) s)"
    using v by (simp add: normalized_def opt_eq_def)
  from report_all [OF this] show ?thesis
    by (simp add: emit_report_report ex get_quartile_label_def QUARTILE_LABELS_def)
qed

theorem emit_report_all_equal_witness:
  "emit_report [(1, Fin 5), (2, Fin 5)] = ([(1, ''bronze'', 0), (2, ''bronze'', 0)], None)"
  using emit_report_all_equal [of "[(1, Fin 5), (2, Fin 5)]"] by (simp add: feq_def)




lemma big_double: "is_double (Fin (2 ^ 1023)) \<and> is_double (Fin (- (2 ^ 1023)))"
proof -
  have lt: "(2::rat) ^ 1023 < overflow_threshold" by (simp add: overflow_threshold_def)
  have "round_double (of_int 1 * 2 powi 1023) = Fin (of_int 1 * 2 powi 1023)"
    using lt by (intro round_double_exact) simp_all
  moreover have "round_double (of_int (- 1) * 2 powi 1023) = Fin (of_int (- 1) * 2 powi 1023)"
    using lt by (intro round_double_exact) simp_all
  ultimately show ?thesis by (simp add: is_double_def)
qed

lemma overflow_sub: "fsub (Fin (2 ^ 1023)) (Fin (- (2 ^ 1023))) = PInf"
proof -
  have x: "(2::rat) ^ 1023 - - (2 ^ 1023) = 2 powi 1024" by simp
  have "flog2 (2 powi 1024) = 1024"
  proof -
    have "2 powi flog2 (2 powi 1024) \<le> (2::rat) powi 1024" by (intro flog2_lower) simp
    moreover have "(2::rat) powi 1024 < 2 powi (flog2 (2 powi 1024) + 1)" by (intro flog2_upper) simp
    ultimately show ?thesis
      using powi_less_imp_less [of 1024 "flog2 (2 powi 1024) + 1"]
        power_int_le_imp_le_exp [of "2::rat" "flog2 (2 powi 1024)" 1024] by simp
  qed
  then have "ulp_exp (2 powi 1024) \<le> 1024" by (simp add: ulp_exp_def)
  then have "2 powi 1024 \<le> rgrid (ulp_exp (2 powi 1024)) (2 powi 1024)"
    by (rule rgrid_ge_powi) simp
  then have "overflow_threshold \<le> round_mag (2 powi 1024)"
    by (simp add: round_mag_rgrid overflow_threshold_def)
  then have "round_double (2 powi 1024) = PInf" by (simp add: round_double_pos)
  then show ?thesis by (simp only: fsub_Fin x)
qed

lemma overflowing_difference:
  "is_double (Fin (2 ^ 1023)) \<and> is_double (Fin (- (2 ^ 1023))) \<and>
   emit_report [(1, Fin (2 ^ 1023)), (2, Fin (- (2 ^ 1023)))] = ([], Some ValueError)"
proof -
  define b :: rat where "b = 2 ^ 1023"
  have pos: "0 < b" by (simp add: b_def)
  have sub: "fsub (Fin b) (Fin (- b)) = PInf" unfolding b_def by (rule overflow_sub)
  have ex: "extremes [Fin b, Fin (- b)] (None, None) = (Some (Fin b), Some (Fin (- b)))"
    using pos by (simp add: fgt_def)
  have ne: "\<not> feq (Fin b) (Fin (- b))" using pos by (simp add: feq_def)
  have "normalized (Some (Fin b)) (Some (Fin (- b))) (Fin b) = Inl ValueError"
    using ne by (simp add: normalized_def opt_eq_def scaled_def sub del: fsub_Fin)
  with ex have "emit_report [(1, Fin b), (2, Fin (- b))] = ([], Some ValueError)"
    by (simp add: emit_report_def)
  with big_double show ?thesis unfolding b_def by blast
qed

text \<open>
  Claim C10, as stated, fails when \<^verbatim>\<open>max_score - min_score\<close> is infinite: the contact
  at the maximum scales to \<^verbatim>\<open>inf / inf\<close>, a NaN, and \<^verbatim>\<open>round\<close> raises. That happens
  with an infinite total (the field \<^verbatim>\<open>inf\<close>) and with two finite doubles whose
  difference overflows.
\<close>

theorem infinite_difference_raises:
  "process_file [[''1'', ''web'', ''inf''], [''2'', ''web'', ''1'']] = ([], Some ValueError) \<and>
   is_double (Fin (2 ^ 1023)) \<and> is_double (Fin (- (2 ^ 1023))) \<and>
   emit_report [(1, Fin (2 ^ 1023)), (2, Fin (- (2 ^ 1023)))] = ([], Some ValueError)"
proof -
  have "process_file [[''1'', ''web'', ''inf''], [''2'', ''web'', ''1'']] = ([], Some ValueError)"
    by code_simp
  with overflowing_difference show ?thesis by blast
qed

text \<open>
  Claim C10, amended. For an aggregate of finite totals, at least two of them distinct,
  whose \<^verbatim>\<open>max_score - min_score\<close> is finite as a float, the run completes with one
  entry per contact; a contact whose total is the least one gets 0 and a contact whose
  total is the greatest one gets 100.
\<close>

theorem extremes_scored_0_and_100:
  assumes totals: "map snd contacts = map Fin xs"
    and doubles: "\<forall>x\<in>set xs. is_double (Fin x)"
    and two: "\<exists>x\<in>set xs. \<exists>y\<in>set xs. x \<noteq> y"
    and finite_diff: "\<exists>d. fsub (Fin (Max (set xs))) (Fin (Min (set xs))) = Fin d"
  shows "snd (emit_report contacts) = None \<and>
         map fst (fst (emit_report contacts)) = map fst contacts \<and>
         (\<forall>i<length contacts.
            (xs ! i = Min (set xs) \<longrightarrow> snd (snd (fst (emit_report contacts) ! i)) = 0) \<and>
            (xs ! i = Max (set xs) \<longrightarrow> snd (snd (fst (emit_report contacts) ! i)) = 100))"
proof -
  define M where "M = Max (set xs)"
  define m where "m = Min (set xs)"
  from two have ne: "xs \<noteq> []" by auto
  have Mm: "M \<in> set xs" "m \<in> set xs" unfolding M_def m_def using ne by simp_all
  have bounds: "m \<le> x \<and> x \<le> M" if "x \<in> set xs" for x
    unfolding M_def m_def using that by simp
  have "m \<noteq> M"
  proof
    assume eq: "m = M"
    from two obtain x y where xy: "x \<in> set xs" "y \<in> set xs" "x \<noteq> y" by blast
    from bounds [OF xy(1)] bounds [OF xy(2)] eq have "x = y" by linarith
    with xy(3) show False by simp
  qed
  from finite_diff obtain d where d: "round_double (M - m) = Fin d"
    by (auto simp: M_def m_def)
  from doubles Mm have "round_double M = Fin M" "round_double m = Fin m"
    by (auto simp: is_double_def)
  from sub_nonzero [OF this] \<open>m \<noteq> M\<close> d have d0: "d \<noteq> 0" by auto
  have ex: "max_score contacts = Some (Fin M)" "min_score contacts = Some (Fin m)"
    using extremes_Max_Min [OF ne] by (simp_all add: max_score_def min_score_def totals M_def m_def)
  define f where "f s = (case normalized (Some (Fin M)) (Some (Fin m)) s of Inr n \<Rightarrow> n | Inl e \<Rightarrow> 0)" for s
  have fx: "normalized (Some (Fin M)) (Some (Fin m)) (Fin x) = Inr (f (Fin x)) \<and>
      (x = m \<longrightarrow> f (Fin x) = 0) \<and> (x = M \<longrightarrow> f (Fin x) = 100)" if "x \<in> set xs" for x
    using normalized_finite [OF d d0, of x] bounds [OF that] by (auto simp: f_def)
  have "\<forall>s\<in>set (map snd contacts). normalized (Some (Fin M)) (Some (Fin m)) s = Inr (f s)"
    unfolding totals using fx by auto
  from report_all [OF this]
  have rep: "emit_report contacts = (map (\<lambda>(c, s). (c, get_quartile_label (f s), f s)) contacts, None)"
    by (simp add: emit_report_report ex)
  have len: "length xs = length contacts" using totals by (metis length_map)
  have nth: "snd (contacts ! i) = Fin (xs ! i)" if "i < length contacts" for i
    using that totals len by (metis nth_map)
  have "snd (snd (fst (emit_report contacts) ! i)) = f (Fin (xs ! i))" if "i < length contacts" for i
    using that nth [OF that] by (cases "contacts ! i") (simp add: rep)
  moreover have "xs ! i \<in> set xs" if "i < length contacts" for i
    using that len by simp
  ultimately show ?thesis using fx by (auto simp: rep M_def m_def)
qed

theorem extremes_scored_0_and_100_witness:
  "snd (emit_report [(1, Fin 0), (2, Fin 8), (3, Fin 1)]) = None \<and>
   snd (snd (fst (emit_report [(1, Fin 0), (2, Fin 8), (3, Fin 1)]) ! 0)) = 0 \<and>
   snd (snd (fst (emit_report [(1, Fin 0), (2, Fin 8), (3, Fin 1)]) ! 1)) = 100"
proof -
  let ?cs = "[(1, Fin 0), (2, Fin 8), (3, Fin 1)]"
  let ?xs = "[0, 8, 1] :: rat list"
  have 1: "map snd ?cs = map Fin ?xs" by simp
  have 2: "\<forall>x\<in>set ?xs. is_double (Fin x)"
    using round_double_of_int [of 8] by (simp add: is_double_def)
  have 3: "\<exists>x\<in>set ?xs. \<exists>y\<in>set ?xs. x \<noteq> y"
    by (rule bexI [of _ 0], rule bexI [of _ 8]) simp_all
  have 4: "\<exists>d. fsub (Fin (Max (set ?xs))) (Fin (Min (set ?xs))) = Fin d"
    using round_double_of_int [of 8] by simp
  from extremes_scored_0_and_100 [OF 1 2 3 4] show ?thesis by simp
qed

section \<open>The report\<close>




end
